theory Spec2Isabelle
  imports Main "HOL-Library.Word" "HOL-Library.Log_Nat" "HOL-Library.Sublist"
begin

section \<open>The process monitor of brieftop: data model\<close>

text \<open>
  The engine lives in package \<open>monitor\<close>.  Two revisions of it are in the repository:
  the recursive, family-restricted one (the file with \<open>aggregateResources\<close> and
  \<open>isRelatedToParent\<close>) and the flat one of \<open>internal/monitor/process.go\<close>.
  Both are embedded below, function by function.

  Conventions of the embedding.
  \<^item> \<open>int32\<close> PIDs are \<open>32 word\<close>, \<open>uint64\<close> byte counts are \<open>64 word\<close>
    (\<open>+\<close> wraps, \<open>\<le>\<close> is the unsigned comparison).
  \<^item> CPU percentages are \<open>float64\<close> values that the engine only adds, compares and
    initialises with \<open>0\<close>.  They are kept abstract: any type \<open>'c\<close> with a constant
    \<open>0\<close>, a binary \<open>+\<close> and comparisons \<open><\<close> and \<open>\<le>\<close> about which the
    definitions assume nothing (so every rounding behaviour of the machine addition
    is covered).  A theorem that needs the comparisons to behave as an order, which
    they do on doubles other than NaN, says so in its hypotheses.
  \<^item> The two places where the engine does floating-point arithmetic on byte counts
    (\<open>float64(x) / float64(y) < 0.1\<close> and \<open>float64(x) / (1024 * 1024)\<close>) are computed
    exactly: a finite double is the rational number it denotes, and every operation
    rounds the exact result to the nearest double, ties to even.
  \<^item> The field \<open>LastUpdate\<close> (wall-clock time) is not modelled.
\<close>

type_synonym pid = "32 word"

type_synonym float64 = rat

datatype error = OSError string | Errorf string error

record 'c ChildInfo =
  cPID :: pid
  cName :: string
  cCPUPercent :: 'c
  cMemoryBytes :: "64 word"
  IsThread :: bool

record 'c ProcessInfo =
  PID :: pid
  PPID :: pid
  Name :: string
  CPUPercent :: 'c
  MemoryBytes :: "64 word"
  MemoryMB :: float64
  Children :: "'c ChildInfo list"
  Expanded :: bool
  ParentCPU :: 'c
  ParentMemory :: "64 word"

text \<open>The part of \<open>config.Config\<close> that \<open>ConfigInterface\<close> exposes to the engine.\<close>

record 'c Config =
  CPUThreshold :: 'c
  MemoryThreshold :: "64 word"

text \<open>
  One entry of the slice returned by \<open>process.Processes()\<close> of gopsutil: the PID and
  the outcome of each accessor \<open>getProcessInfo\<close> calls on it (an error or a value;
  \<open>MemoryInfo\<close> is reduced to the \<open>RSS\<close> field, the only one read).
\<close>

record 'c Process =
  Pid :: pid
  Name_call :: "error + string"
  Ppid_call :: "error + pid"
  CPUPercent_call :: "error + 'c"
  MemoryInfo_call :: "error + 64 word"

record 'c Monitor =
  processes :: "pid \<rightharpoonup> 'c ProcessInfo"
  config :: "'c Config"

section \<open>Double-precision arithmetic on byte counts\<close>

text \<open>Rounding a rational to the nearest integer, ties to the even neighbour.\<close>

definition round_half_even :: "rat \<Rightarrow> int" where
  "round_half_even x =
     (let f = \<lfloor>x\<rfloor>; d = x - of_int f
      in if d < 1 / 2 then f else if 1 / 2 < d then f + 1 else if even f then f else f + 1)"

text \<open>The binary exponent of a positive rational: \<open>2 powi binade q \<le> q < 2 powi (binade q + 1)\<close>.\<close>

definition binade :: "rat \<Rightarrow> int" where
  "binade q =
     (let k = bitlen (fst (quotient_of q)) - bitlen (snd (quotient_of q))
      in if 2 powi k \<le> q then k else k - 1)"

text \<open>
  Round to nearest double (53-bit significand), ties to even.  Overflow and subnormal
  numbers do not occur for the magnitudes that arise from 64-bit byte counts and their
  quotients, which all lie between \<open>2 powi -64\<close> and \<open>2 powi 64\<close>.
\<close>

definition float64_round :: "rat \<Rightarrow> float64" where
  "float64_round q =
     (if q = 0 then 0
      else let e = binade \<bar>q\<bar> - 52
           in sgn q * of_int (round_half_even (\<bar>q\<bar> / 2 powi e)) * 2 powi e)"

text \<open>The conversion \<open>float64(x)\<close> of a \<open>uint64\<close>, and the quotient of two doubles.\<close>

definition float64_of_uint64 :: "64 word \<Rightarrow> float64" where
  "float64_of_uint64 x = float64_round (of_int (uint x))"

definition float64_div :: "float64 \<Rightarrow> float64 \<Rightarrow> float64" where
  "float64_div x y = float64_round (x / y)"

text \<open>\<open>float64(b) / (1024 * 1024)\<close>, the value stored in \<open>MemoryMB\<close>.\<close>

definition toMB :: "64 word \<Rightarrow> float64" where
  "toMB b = float64_div (float64_of_uint64 b) (1024 * 1024)"

section \<open>Relation classifier\<close>

text \<open>
  \<open>isThread\<close>: same name; or the child's name is longer than the parent's and starts
  with it; or the parent has memory and the child's share of it, computed in doubles,
  is below the double nearest to \<open>0.1\<close>.
\<close>

definition isThread :: "'c ProcessInfo \<Rightarrow> 'c ProcessInfo \<Rightarrow> bool" where
  "isThread child parent =
     (if Name child = Name parent then True
      else if length (Name child) > length (Name parent) \<and>
              take (length (Name parent)) (Name child) = Name parent then True
      else if MemoryBytes parent > 0 \<and>
              float64_div (float64_of_uint64 (MemoryBytes child))
                          (float64_of_uint64 (MemoryBytes parent)) < float64_round (1 / 10)
           then True
      else False)"

definition systemParents :: "string list" where
  "systemParents = [''systemd'', ''init'', ''launchd'']"

definition isRelatedToParent :: "'c ProcessInfo \<Rightarrow> 'c ProcessInfo \<Rightarrow> bool" where
  "isRelatedToParent child parent =
     (if Name parent \<in> set systemParents then False
      else if Name child = Name parent then True
      else if length (Name child) \<ge> length (Name parent) \<and>
              take (length (Name parent)) (Name child) = Name parent then True
      else if length (Name parent) \<ge> length (Name child) \<and>
              take (length (Name child)) (Name parent) = Name child then True
      else False)"

section \<open>Collecting the snapshot\<close>

text \<open>
  \<open>getProcessInfo\<close>: a failing \<open>Name\<close> or \<open>MemoryInfo\<close> fails the call; a failing
  \<open>Ppid\<close> or \<open>CPUPercent\<close> is replaced by \<open>0\<close>.  The expansion flag is taken over from
  the monitor's entry for the PID, and the new record replaces that entry.
\<close>

definition getProcessInfo ::
  "(pid \<rightharpoonup> 'c ProcessInfo) \<Rightarrow> ('c::zero) Process
     \<Rightarrow> error + ('c ProcessInfo \<times> (pid \<rightharpoonup> 'c ProcessInfo))" where
  "getProcessInfo procs p =
     (case Name_call p of
        Inl err \<Rightarrow> Inl err
      | Inr name \<Rightarrow>
          let ppid = (case Ppid_call p of Inl err \<Rightarrow> 0 | Inr v \<Rightarrow> v);
              cpuPercent = (case CPUPercent_call p of Inl err \<Rightarrow> 0 | Inr v \<Rightarrow> v)
          in case MemoryInfo_call p of
               Inl err \<Rightarrow> Inl err
             | Inr rss \<Rightarrow>
                 let info = \<lparr>PID = Pid p, PPID = ppid, Name = name, CPUPercent = cpuPercent,
                             MemoryBytes = rss, MemoryMB = 0, Children = [],
                             Expanded = (case procs (Pid p) of
                                           Some existing \<Rightarrow> Expanded existing
                                         | None \<Rightarrow> False),
                             ParentCPU = 0, ParentMemory = 0\<rparr>
                 in Inr (info, procs(Pid p \<mapsto> info)))"

text \<open>
  The state of the first pass: \<open>allProcesses\<close>, \<open>childrenMap\<close> and the monitor's
  \<open>processes\<close> map.  A \<open>*ProcessInfo\<close> is identified with its PID: within one call
  every pointer stored under a PID is the one in \<open>allProcesses\<close> under that PID, so a
  write through any of them is a write to \<open>allProcesses\<close>.
\<close>

record 'c collected =
  allProcesses :: "pid \<rightharpoonup> 'c ProcessInfo"
  childrenMap :: "pid \<rightharpoonup> pid list"
  mprocesses :: "pid \<rightharpoonup> 'c ProcessInfo"

definition appendChild :: "(pid \<rightharpoonup> pid list) \<Rightarrow> pid \<Rightarrow> pid \<Rightarrow> (pid \<rightharpoonup> pid list)" where
  "appendChild cm ppid pid =
     cm(ppid \<mapsto> (case cm ppid of None \<Rightarrow> [] | Some cs \<Rightarrow> cs) @ [pid])"

fun firstPass :: "('c::zero) Process list \<Rightarrow> 'c collected \<Rightarrow> 'c collected" where
  "firstPass [] s = s"
| "firstPass (p # ps) s =
     (case getProcessInfo (mprocesses s) p of
        Inl err \<Rightarrow> firstPass ps s
      | Inr (info, procs') \<Rightarrow>
          firstPass ps
            \<lparr>allProcesses = (allProcesses s)(PID info \<mapsto> info),
             childrenMap = (if PPID info \<noteq> 0
                            then appendChild (childrenMap s) (PPID info) (PID info)
                            else childrenMap s),
             mprocesses = procs'\<rparr>)"

text \<open>
  Go enumerates a map in an unspecified order.  A \<open>range\<close> over a map is modelled by
  an enumeration \<open>ord\<close> of PIDs supplied from outside, of which the keys of the map are
  visited in turn; the theorems hold for every enumeration that lists each key once.
\<close>

definition range_keys :: "pid list \<Rightarrow> (pid \<rightharpoonup> 'v) \<Rightarrow> pid list" where
  "range_keys ord m = filter (\<lambda>k. m k \<noteq> None) ord"

section \<open>Bottom-up aggregation\<close>

record 'c aggState =
  procs :: "pid \<rightharpoonup> 'c ProcessInfo"
  aggregated :: "pid set"

text \<open>
  One iteration of the loop over \<open>childPIDs\<close>, after the recursive call for the child
  has returned: the child and the parent are read through their pointers; a related
  child is appended to the parent's \<open>Children\<close> and added to the running totals.
  The parent's record is always present when the loop runs (entries are never removed).
\<close>

definition absorbChild ::
  "pid \<Rightarrow> pid \<Rightarrow> ('c::plus) \<times> 64 word \<times> bool \<Rightarrow> 'c aggState
     \<Rightarrow> ('c \<times> 64 word \<times> bool) \<times> 'c aggState" where
  "absorbChild pid childPID acc st =
     (case (procs st childPID, procs st pid) of
        (Some childInfo, Some info) \<Rightarrow>
          if \<not> isRelatedToParent childInfo info then (acc, st)
          else
            let child = \<lparr>cPID = PID childInfo, cName = Name childInfo,
                         cCPUPercent = CPUPercent childInfo,
                         cMemoryBytes = MemoryBytes childInfo,
                         IsThread = isThread childInfo info\<rparr>
            in ((fst acc + CPUPercent childInfo, fst (snd acc) + MemoryBytes childInfo, True),
                st\<lparr>procs := (procs st)(pid \<mapsto> info\<lparr>Children := Children info @ [child]\<rparr>)\<rparr>)
      | _ \<Rightarrow> (acc, st))"

text \<open>The loop itself; \<open>rec\<close> is the recursive call \<open>m.aggregateResources(childPID, ...)\<close>.\<close>

fun aggregateChildren ::
  "(pid \<Rightarrow> 'c aggState \<Rightarrow> 'c aggState option) \<Rightarrow> pid \<Rightarrow> pid list
     \<Rightarrow> ('c::plus) \<times> 64 word \<times> bool \<Rightarrow> 'c aggState
     \<Rightarrow> (('c \<times> 64 word \<times> bool) \<times> 'c aggState) option" where
  "aggregateChildren rec pid [] acc st = Some (acc, st)"
| "aggregateChildren rec pid (childPID # rest) acc st =
     (case rec childPID st of
        None \<Rightarrow> None
      | Some st1 \<Rightarrow>
          (case absorbChild pid childPID acc st1 of
             (acc', st2) \<Rightarrow> aggregateChildren rec pid rest acc' st2))"

text \<open>The end of \<open>aggregateResources\<close> for a process that has an entry in \<open>childrenMap\<close>.\<close>

definition storeTotals ::
  "pid \<Rightarrow> 'c \<times> 64 word \<times> bool \<Rightarrow> 'c aggState \<Rightarrow> 'c aggState" where
  "storeTotals pid acc st =
     (case procs st pid of
        None \<Rightarrow> st\<lparr>aggregated := insert pid (aggregated st)\<rparr>
      | Some info \<Rightarrow>
          st\<lparr>procs := (procs st)(pid \<mapsto>
                (if snd (snd acc)
                 then info\<lparr>CPUPercent := fst acc, MemoryBytes := fst (snd acc),
                           MemoryMB := toMB (fst (snd acc))\<rparr>
                 else info\<lparr>MemoryMB := toMB (MemoryBytes info)\<rparr>)),
             aggregated := insert pid (aggregated st)\<rparr>)"

text \<open>
  \<open>aggregateResources\<close>.  The recursion of the source is not bounded by anything in
  the source; the first argument bounds its depth, and \<open>None\<close> is the outcome of
  a call chain deeper than that bound (the Go runtime aborts the program when the
  goroutine stack is exhausted).
\<close>

fun aggregateResources ::
  "nat \<Rightarrow> (pid \<rightharpoonup> pid list) \<Rightarrow> pid \<Rightarrow> ('c::plus) aggState \<Rightarrow> 'c aggState option" where
  "aggregateResources 0 cm pid st = None"
| "aggregateResources (Suc depth) cm pid st =
     (if pid \<in> aggregated st then Some st
      else case procs st pid of
        None \<Rightarrow> Some st
      | Some info \<Rightarrow>
          (case cm pid of
             None \<Rightarrow>
               Some (st\<lparr>procs := (procs st)(pid \<mapsto> info\<lparr>MemoryMB := toMB (MemoryBytes info)\<rparr>),
                        aggregated := insert pid (aggregated st)\<rparr>)
           | Some childPIDs \<Rightarrow>
               (case aggregateChildren (aggregateResources depth cm) pid childPIDs
                       (CPUPercent info, MemoryBytes info, False)
                       (st\<lparr>procs := (procs st)(pid \<mapsto>
                              info\<lparr>ParentCPU := CPUPercent info,
                                   ParentMemory := MemoryBytes info\<rparr>)\<rparr>) of
                  None \<Rightarrow> None
                | Some (acc, st1) \<Rightarrow> Some (storeTotals pid acc st1))))"

text \<open>The second pass: \<open>for pid := range allProcesses\<close>.\<close>

fun secondPass ::
  "nat \<Rightarrow> (pid \<rightharpoonup> pid list) \<Rightarrow> pid list \<Rightarrow> ('c::plus) aggState \<Rightarrow> 'c aggState option" where
  "secondPass depth cm [] st = Some st"
| "secondPass depth cm (pid # pids) st =
     (case aggregateResources depth cm pid st of
        None \<Rightarrow> None
      | Some st' \<Rightarrow> secondPass depth cm pids st')"

section \<open>Threshold filter and ranking\<close>

definition qualifies :: "('c::ord) Config \<Rightarrow> 'c ProcessInfo \<Rightarrow> bool" where
  "qualifies cfg info =
     (CPUPercent info \<ge> CPUThreshold cfg \<or> MemoryBytes info \<ge> MemoryThreshold cfg)"

text \<open>The third pass builds \<open>qualifyingProcesses\<close>, keyed by \<open>info.PID\<close>.\<close>

fun thirdPass ::
  "('c::ord) Config \<Rightarrow> (pid \<rightharpoonup> 'c ProcessInfo) \<Rightarrow> pid list
     \<Rightarrow> (pid \<rightharpoonup> 'c ProcessInfo) \<Rightarrow> (pid \<rightharpoonup> 'c ProcessInfo)" where
  "thirdPass cfg allp [] q = q"
| "thirdPass cfg allp (k # ks) q =
     (case allp k of
        None \<Rightarrow> thirdPass cfg allp ks q
      | Some info \<Rightarrow>
          thirdPass cfg allp ks (if qualifies cfg info then q(PID info \<mapsto> info) else q))"

text \<open>The fourth pass appends the qualifying processes whose \<open>PPID\<close> is not a key.\<close>

fun fourthPass ::
  "(pid \<rightharpoonup> 'c ProcessInfo) \<Rightarrow> pid list \<Rightarrow> 'c ProcessInfo list \<Rightarrow> 'c ProcessInfo list" where
  "fourthPass q [] filtered = filtered"
| "fourthPass q (k # ks) filtered =
     (case q k of
        None \<Rightarrow> fourthPass q ks filtered
      | Some info \<Rightarrow>
          fourthPass q ks (if q (PPID info) = None then filtered @ [info] else filtered))"

text \<open>
  \<open>sort.Slice\<close> is the Go library's comparison sort; it is not stable.  On a slice of
  at most 12 elements it is the insertion sort below: each element in turn moves
  left while it is \<open>less\<close> than its left neighbour.  The model uses this insertion
  sort for every length (on longer slices the library may order equal keys
  differently).  \<open>moveLeft lt x r\<close> works on the sorted prefix in reverse, nearest
  neighbour first.
\<close>

fun moveLeft :: "('a \<Rightarrow> 'a \<Rightarrow> bool) \<Rightarrow> 'a \<Rightarrow> 'a list \<Rightarrow> 'a list" where
  "moveLeft lt x [] = [x]"
| "moveLeft lt x (y # ys) = (if lt x y then y # moveLeft lt x ys else x # y # ys)"

definition sort_Slice :: "('a \<Rightarrow> 'a \<Rightarrow> bool) \<Rightarrow> 'a list \<Rightarrow> 'a list" where
  "sort_Slice lt xs = rev (foldl (\<lambda>r x. moveLeft lt x r) [] xs)"

text \<open>
  \<open>GetFilteredProcesses\<close>, pass by pass.  \<open>collect\<close> is the first pass on fresh maps,
  \<open>aggregateAll\<close> the second pass with a fresh \<open>aggregated\<close> map, \<open>qualifyingProcesses\<close>
  the map built by the third pass and \<open>topLevel\<close> the slice \<open>filtered\<close> before sorting.
\<close>

definition collect :: "('c::zero) Monitor \<Rightarrow> 'c Process list \<Rightarrow> 'c collected" where
  "collect m ps =
     firstPass ps \<lparr>allProcesses = Map.empty, childrenMap = Map.empty, mprocesses = processes m\<rparr>"

definition aggregateAll :: "nat \<Rightarrow> pid list \<Rightarrow> ('c::plus) collected \<Rightarrow> 'c aggState option" where
  "aggregateAll depth ord2 s =
     secondPass depth (childrenMap s) (range_keys ord2 (allProcesses s))
       \<lparr>procs = allProcesses s, aggregated = {}\<rparr>"

definition qualifyingProcesses ::
  "('c::ord) Config \<Rightarrow> pid list \<Rightarrow> 'c aggState \<Rightarrow> (pid \<rightharpoonup> 'c ProcessInfo)" where
  "qualifyingProcesses cfg ord3 st =
     thirdPass cfg (procs st) (range_keys ord3 (procs st)) Map.empty"

definition topLevel :: "pid list \<Rightarrow> (pid \<rightharpoonup> 'c ProcessInfo) \<Rightarrow> 'c ProcessInfo list" where
  "topLevel ord4 q = fourthPass q (range_keys ord4 q) []"

text \<open>
  Arguments of \<open>GetFilteredProcesses\<close>: the bound on the recursion depth of the second
  pass, the three map enumerations (second, third and fourth pass), the monitor and the
  outcome of \<open>process.Processes()\<close>.  The result is \<open>None\<close> when the recursion exceeds
  the bound, otherwise the returned pair (error or slice) with the monitor afterwards,
  whose \<open>processes\<close> entries of this call are the records the passes have written to.
\<close>

definition GetFilteredProcesses ::
  "nat \<Rightarrow> pid list \<Rightarrow> pid list \<Rightarrow> pid list \<Rightarrow> ('c::{zero,plus,ord}) Monitor
     \<Rightarrow> error + 'c Process list
     \<Rightarrow> ((error + 'c ProcessInfo list) \<times> 'c Monitor) option" where
  "GetFilteredProcesses depth ord2 ord3 ord4 m processes_result =
     (case processes_result of
        Inl err \<Rightarrow> Some (Inl (Errorf ''failed to get processes: %w'' err), m)
      | Inr ps \<Rightarrow>
          (case aggregateAll depth ord2 (collect m ps) of
             None \<Rightarrow> None
           | Some st \<Rightarrow>
               Some (Inr (sort_Slice (\<lambda>a b. CPUPercent a > CPUPercent b)
                            (topLevel ord4 (qualifyingProcesses (config m) ord3 st))),
                     m\<lparr>processes := mprocesses (collect m ps) ++ procs st\<rparr>)))"

section \<open>What aggregation computes: specification functions\<close>

text \<open>The \<open>ChildInfo\<close> built in the loop for a related child.\<close>

definition childEntry :: "'c ProcessInfo \<Rightarrow> 'c ProcessInfo \<Rightarrow> 'c ChildInfo" where
  "childEntry childInfo info =
     \<lparr>cPID = PID childInfo, cName = Name childInfo, cCPUPercent = CPUPercent childInfo,
      cMemoryBytes = MemoryBytes childInfo, IsThread = isThread childInfo info\<rparr>"

text \<open>
  The entries of the related children among \<open>cs\<close>, in the order of \<open>cs\<close>, read from the
  process table \<open>ps\<close>.
\<close>

fun relatedEntries ::
  "(pid \<rightharpoonup> 'c ProcessInfo) \<Rightarrow> 'c ProcessInfo \<Rightarrow> pid list \<Rightarrow> 'c ChildInfo list" where
  "relatedEntries ps info [] = []"
| "relatedEntries ps info (c # cs) =
     (case ps c of
        None \<Rightarrow> relatedEntries ps info cs
      | Some ci \<Rightarrow>
          if isRelatedToParent ci info then childEntry ci info # relatedEntries ps info cs
          else relatedEntries ps info cs)"

text \<open>
  The record of a process with an entry in \<open>childrenMap\<close> once its call has finished,
  from its record \<open>i0\<close> before the call and the entries \<open>es\<close> of its related children.
\<close>

definition withTotals :: "('c::plus) ProcessInfo \<Rightarrow> 'c ChildInfo list \<Rightarrow> 'c ProcessInfo" where
  "withTotals i0 es =
     (if es = []
      then i0\<lparr>MemoryMB := toMB (MemoryBytes i0),
              ParentCPU := CPUPercent i0, ParentMemory := MemoryBytes i0\<rparr>
      else i0\<lparr>CPUPercent := foldl (+) (CPUPercent i0) (map cCPUPercent es),
              MemoryBytes := foldl (+) (MemoryBytes i0) (map cMemoryBytes es),
              MemoryMB := toMB (foldl (+) (MemoryBytes i0) (map cMemoryBytes es)),
              Children := Children i0 @ es,
              ParentCPU := CPUPercent i0, ParentMemory := MemoryBytes i0\<rparr>)"

definition aggregatedInfo ::
  "(pid \<rightharpoonup> pid list) \<Rightarrow> (pid \<rightharpoonup> 'c ProcessInfo) \<Rightarrow> pid \<Rightarrow> ('c::plus) ProcessInfo
     \<Rightarrow> 'c ProcessInfo" where
  "aggregatedInfo cm ps pid i0 =
     (case cm pid of
        None \<Rightarrow> i0\<lparr>MemoryMB := toMB (MemoryBytes i0)\<rparr>
      | Some cs \<Rightarrow> withTotals i0 (relatedEntries ps i0 cs))"

text \<open>
  \<open>node_final cm ps0 st x\<close>: process \<open>x\<close>, whose record was \<open>ps0 x\<close> before aggregation,
  holds its aggregated record in \<open>st\<close>, computed from the records its children have in
  \<open>st\<close>, and each of its children is marked aggregated or has no record.
\<close>

definition node_final ::
  "(pid \<rightharpoonup> pid list) \<Rightarrow> (pid \<rightharpoonup> 'c ProcessInfo) \<Rightarrow> ('c::plus) aggState \<Rightarrow> pid \<Rightarrow> bool" where
  "node_final cm ps0 st x =
     (case ps0 x of
        None \<Rightarrow> False
      | Some i0 \<Rightarrow>
          procs st x = Some (aggregatedInfo cm (procs st) x i0) \<and>
          (case cm x of
             None \<Rightarrow> True
           | Some cs \<Rightarrow> \<forall>c\<in>set cs. c \<in> aggregated st \<or> procs st c = None))"

text \<open>
  \<open>edge cm st c p\<close>: in state \<open>st\<close> a call for \<open>p\<close> would recurse into \<open>c\<close>:
  \<open>p\<close> is not marked, has a record, and lists \<open>c\<close> among its children.
\<close>

definition edge :: "(pid \<rightharpoonup> pid list) \<Rightarrow> 'c aggState \<Rightarrow> pid \<Rightarrow> pid \<Rightarrow> bool" where
  "edge cm st c p =
     (p \<notin> aggregated st \<and> procs st p \<noteq> None \<and>
      (case cm p of None \<Rightarrow> False | Some cs \<Rightarrow> c \<in> set cs))"

text \<open>
  \<open>stable st st'\<close>: from \<open>st\<close> to \<open>st'\<close> marks are only added, and the record of a
  marked process and the absence of a record are kept.
\<close>

definition stable :: "'c aggState \<Rightarrow> 'c aggState \<Rightarrow> bool" where
  "stable st st' =
     (aggregated st \<subseteq> aggregated st' \<and>
      (\<forall>k. k \<in> aggregated st \<or> procs st k = None \<longrightarrow> procs st' k = procs st k))"

text \<open>What a returning call \<open>aggregateResources depth cm pid st = Some st'\<close> guarantees.\<close>

definition call_post ::
  "(pid \<rightharpoonup> pid list) \<Rightarrow> pid \<Rightarrow> ('c::plus) aggState \<Rightarrow> 'c aggState \<Rightarrow> bool" where
  "call_post cm pid st st' =
     (aggregated st \<subseteq> aggregated st' \<and>
      dom (procs st') = dom (procs st) \<and>
      (\<forall>k. k \<notin> aggregated st' \<or> k \<in> aggregated st \<longrightarrow> procs st' k = procs st k) \<and>
      Wellfounded.accp (edge cm st) pid \<and>
      (\<forall>x\<in>aggregated st' - aggregated st.
          (edge cm st)\<^sup>*\<^sup>* x pid \<and> node_final cm (procs st) st' x) \<and>
      (procs st pid \<noteq> None \<longrightarrow> pid \<in> aggregated st'))"

text \<open>The invariant of the loop over \<open>childPIDs\<close> after the children \<open>cs1\<close> have been handled.\<close>

definition loop_inv ::
  "(pid \<rightharpoonup> pid list) \<Rightarrow> pid \<Rightarrow> ('c::plus) ProcessInfo \<Rightarrow> 'c aggState \<Rightarrow> pid list
     \<Rightarrow> 'c \<times> 64 word \<times> bool \<Rightarrow> 'c aggState \<Rightarrow> bool" where
  "loop_inv cm pid i0 st cs1 acc sj =
     (aggregated st \<subseteq> aggregated sj \<and> pid \<notin> aggregated sj \<and>
      dom (procs sj) = dom (procs st) \<and>
      procs sj pid =
        Some (i0\<lparr>Children := Children i0 @ relatedEntries (procs sj) i0 cs1,
                 ParentCPU := CPUPercent i0, ParentMemory := MemoryBytes i0\<rparr>) \<and>
      acc = (foldl (+) (CPUPercent i0) (map cCPUPercent (relatedEntries (procs sj) i0 cs1)),
             foldl (+) (MemoryBytes i0) (map cMemoryBytes (relatedEntries (procs sj) i0 cs1)),
             relatedEntries (procs sj) i0 cs1 \<noteq> []) \<and>
      (\<forall>k. k \<noteq> pid \<longrightarrow> k \<notin> aggregated sj \<or> k \<in> aggregated st \<longrightarrow> procs sj k = procs st k) \<and>
      (\<forall>x\<in>aggregated sj - aggregated st.
          (edge cm st)\<^sup>*\<^sup>* x pid \<and> Wellfounded.accp (edge cm st) x \<and>
          node_final cm (procs st) sj x) \<and>
      (\<forall>c\<in>set cs1. (c \<in> aggregated sj \<or> procs sj c = None) \<and> Wellfounded.accp (edge cm st) c))"

text \<open>
  The invariant of the second pass, started in \<open>st0\<close>: an unmarked process still has
  the record it had in \<open>st0\<close>; a process marked since then holds its aggregated record
  and no chain of recursive calls starting from it in \<open>st0\<close> is infinite.
\<close>

definition pass_inv ::
  "(pid \<rightharpoonup> pid list) \<Rightarrow> ('c::plus) aggState \<Rightarrow> 'c aggState \<Rightarrow> bool" where
  "pass_inv cm st0 st =
     (aggregated st0 \<subseteq> aggregated st \<and>
      dom (procs st) = dom (procs st0) \<and>
      (\<forall>k. k \<notin> aggregated st \<or> k \<in> aggregated st0 \<longrightarrow> procs st k = procs st0 k) \<and>
      (\<forall>x\<in>aggregated st - aggregated st0.
          node_final cm (procs st0) st x \<and> Wellfounded.accp (edge cm st0) x))"

text \<open>The first component of what a returning call yields: the error or the slice.\<close>

definition returned ::
  "((error + 'c ProcessInfo list) \<times> 'c Monitor) option \<Rightarrow> (error + 'c ProcessInfo list) option" where
  "returned r = map_option fst r"

text \<open>
  \<open>readable q\<close>: \<open>getProcessInfo\<close> succeeds on \<open>q\<close> (its \<open>Name\<close> and \<open>MemoryInfo\<close>
  calls do).  \<open>ranked h ps\<close>: every parent link that the first pass records from the
  process list \<open>ps\<close> leads to a PID of larger rank \<open>h\<close>; the links then form no cycle,
  and a chain of links below a PID is no longer than the rank of that PID.
\<close>

definition readable :: "'c Process \<Rightarrow> bool" where
  "readable q = (\<not> isl (Name_call q) \<and> \<not> isl (MemoryInfo_call q))"

definition ranked :: "(pid \<Rightarrow> nat) \<Rightarrow> 'c Process list \<Rightarrow> bool" where
  "ranked h ps =
     (\<forall>q\<in>set ps. readable q \<longrightarrow>
        (case Ppid_call q of Inl err \<Rightarrow> True | Inr p \<Rightarrow> p \<noteq> 0 \<longrightarrow> h (Pid q) < h p))"

section \<open>A double-precision instance of the CPU type\<close>

text \<open>
  The finite doubles as the rationals they denote; addition rounds the exact sum to the
  nearest double (ties to even), comparison is that of the values.  \<open>d64 x\<close> is the
  double nearest to \<open>x\<close>, as a decimal literal denotes it.
\<close>

datatype f64 = F64 (val: rat)

instantiation f64 :: "{zero,plus,ord}"
begin

definition zero_f64_def: "0 = F64 0"

definition plus_f64_def: "a + b = F64 (float64_round (val a + val b))"

definition less_eq_f64_def: "a \<le> b = (val a \<le> val b)"

definition less_f64_def: "a < b = (val a < val b)"

instance ..

end

definition d64 :: "rat \<Rightarrow> f64" where
  "d64 x = F64 (float64_round x)"

section \<open>Sample data\<close>

text \<open>A record as \<open>getProcessInfo\<close> returns it, with rational CPU percentages.\<close>

definition mkInfo :: "pid \<Rightarrow> pid \<Rightarrow> string \<Rightarrow> rat \<Rightarrow> 64 word \<Rightarrow> rat ProcessInfo" where
  "mkInfo p pp n c b =
     \<lparr>PID = p, PPID = pp, Name = n, CPUPercent = c, MemoryBytes = b, MemoryMB = 0,
      Children = [], Expanded = False, ParentCPU = 0, ParentMemory = 0\<rparr>"

text \<open>A process whose four accessors succeed, and a monitor with the default thresholds
  (5 percent, 50 MB) and no earlier entries.\<close>

definition mkProc :: "pid \<Rightarrow> pid \<Rightarrow> string \<Rightarrow> rat \<Rightarrow> 64 word \<Rightarrow> rat Process" where
  "mkProc p pp n c b =
     \<lparr>Pid = p, Name_call = Inr n, Ppid_call = Inr pp, CPUPercent_call = Inr c,
      MemoryInfo_call = Inr b\<rparr>"

definition mon0 :: "rat Monitor" where
  "mon0 = \<lparr>processes = Map.empty, config = \<lparr>CPUThreshold = 5, MemoryThreshold = 52428800\<rparr>\<rparr>"

text \<open>The scenario of the specification: chrome (3.2 percent, 85 MB) with its child
  chrome-gpu (2.3 percent, 45 MB).\<close>

definition chrome2 :: "rat Process list" where
  "chrome2 = [mkProc 1 0 ''chrome'' (32 / 10) 89128960,
              mkProc 2 1 ''chrome-gpu'' (23 / 10) 47185920]"

text \<open>A chain of three unrelated names in which only the ends reach a threshold.\<close>

definition chain3 :: "rat Process list" where
  "chain3 = [mkProc 1 0 ''alpha'' 10 0, mkProc 2 1 ''beta'' 0 0, mkProc 3 2 ''gamma'' 7 0]"

text \<open>Two processes that name each other as parent.\<close>

definition cycle2 :: "rat Process list" where
  "cycle2 = [mkProc 1 2 ''a'' 10 0, mkProc 2 1 ''b'' 10 0]"

text \<open>An init process with a busy child of another name.\<close>

definition initd2 :: "rat Process list" where
  "initd2 = [mkProc 1 0 ''systemd'' 1 0, mkProc 2 1 ''nginx'' 10 0]"

text \<open>The chrome scenario next to an unrelated process that uses more CPU than
  chrome alone and less than chrome with its child; and a rank for it.\<close>

definition chrome3 :: "rat Process list" where
  "chrome3 = [mkProc 1 0 ''chrome'' (32 / 10) 89128960,
              mkProc 2 1 ''chrome-gpu'' (23 / 10) 47185920,
              mkProc 3 0 ''nginx'' (52 / 10) 0]"

definition rank1 :: "pid \<Rightarrow> nat" where
  "rank1 k = (if k = 1 then 1 else 0)"

text \<open>A parent and a child of one family, each below both thresholds on its own.\<close>

definition small2 :: "rat Process list" where
  "small2 = [mkProc 1 0 ''chrome'' (32 / 10) 10485760,
             mkProc 2 1 ''chrome-gpu'' (23 / 10) 10485760]"

text \<open>\<open>parentLink ps c p\<close>: the process list gives \<open>p\<close> as the parent PID of \<open>c\<close>.\<close>

definition parentLink :: "'c Process list \<Rightarrow> pid \<Rightarrow> pid \<Rightarrow> bool" where
  "parentLink ps c p = (\<exists>q\<in>set ps. Pid q = c \<and> Ppid_call q = Inr p)"

text \<open>A rank for \<open>chain3\<close>.\<close>

definition rank3 :: "pid \<Rightarrow> nat" where
  "rank3 k = (if k = 1 then 2 else if k = 2 then 1 else 0)"

text \<open>A parent (0.1 percent, 1 MB) with two children of its family (0.2 percent, 2 MB
  and 0.3 percent, 3 MB), with double-precision CPU percentages, and a monitor whose CPU
  threshold is half a percent.\<close>

definition mkProcF :: "pid \<Rightarrow> pid \<Rightarrow> string \<Rightarrow> f64 \<Rightarrow> 64 word \<Rightarrow> f64 Process" where
  "mkProcF p pp n c b =
     \<lparr>Pid = p, Name_call = Inr n, Ppid_call = Inr pp, CPUPercent_call = Inr c,
      MemoryInfo_call = Inr b\<rparr>"

definition monF :: "f64 Monitor" where
  "monF = \<lparr>processes = Map.empty,
            config = \<lparr>CPUThreshold = d64 (1 / 2), MemoryThreshold = 52428800\<rparr>\<rparr>"

definition worker3 :: "f64 Process list" where
  "worker3 = [mkProcF 1 0 ''app'' (d64 (1 / 10)) 1048576,
              mkProcF 2 1 ''app-a'' (d64 (2 / 10)) 2097152,
              mkProcF 3 1 ''app-b'' (d64 (3 / 10)) 3145728]"

text \<open>An init process below both thresholds with two busy children of the same name.\<close>

definition initfam :: "rat Process list" where
  "initfam = [mkProc 1 0 ''init'' 1 0, mkProc 2 1 ''init'' 10 0, mkProc 3 1 ''init'' 8 0]"


section \<open>Auxiliary facts: accessibility, stability\<close>

lemma accp_no_cycle:
  assumes "Wellfounded.accp r x"
  shows "\<not> r\<^sup>+\<^sup>+ x x"
  using assms
proof (induction rule: accp.induct)
  case (accI x)
  show ?case
  proof
    assume "r\<^sup>+\<^sup>+ x x"
    then obtain y where y: "r\<^sup>*\<^sup>* x y" "r y x"
      by (metis rtranclp.rtrancl_refl tranclp.cases tranclp_into_rtranclp)
    then have "r\<^sup>+\<^sup>+ y y"
      by (meson rtranclp_into_tranclp2)
    with accI.IH y(2) show False by blast
  qed
qed

lemma accp_no_back_edge:
  assumes "Wellfounded.accp r c" "r\<^sup>*\<^sup>* p c" "r c p"
  shows False
proof -
  have "r\<^sup>+\<^sup>+ c c" using assms(2,3) by (rule rtranclp_into_tranclp2 [rotated])
  then show False using accp_no_cycle [OF assms(1)] by simp
qed

lemma edge_antitone:
  assumes "aggregated st \<subseteq> aggregated sj" "dom (procs sj) = dom (procs st)" "edge cm sj c p"
  shows "edge cm st c p"
proof -
  have "p \<notin> aggregated st" using assms(1,3) by (auto simp: edge_def)
  moreover have "procs st p \<noteq> None" using assms(2,3) by (metis domIff edge_def)
  ultimately show ?thesis using assms(3) by (simp add: edge_def)
qed

lemma relatedEntries_cong:
  assumes "\<forall>c\<in>set cs. ps' c = ps c"
  shows "relatedEntries ps' i cs = relatedEntries ps i cs"
  using assms by (induction cs) (simp_all split: option.splits)

lemma relatedEntries_append:
  "relatedEntries ps i (cs1 @ cs2) = relatedEntries ps i cs1 @ relatedEntries ps i cs2"
  by (induction cs1) (simp_all split: option.splits)

lemma stableD1: "stable a b \<Longrightarrow> aggregated a \<subseteq> aggregated b"
  unfolding stable_def by blast

lemma stableD2: "stable a b \<Longrightarrow> k \<in> aggregated a \<Longrightarrow> procs b k = procs a k"
  unfolding stable_def by blast

lemma stableD3: "stable a b \<Longrightarrow> procs a k = None \<Longrightarrow> procs b k = None"
  unfolding stable_def by metis

lemma stableI:
  assumes "aggregated a \<subseteq> aggregated b"
    and "\<And>k. k \<in> aggregated a \<Longrightarrow> procs b k = procs a k"
    and "\<And>k. procs a k = None \<Longrightarrow> procs b k = None"
  shows "stable a b"
  unfolding stable_def using assms by metis

lemma stable_trans:
  assumes "stable a b" "stable b c"
  shows "stable a c"
proof (rule stableI)
  show "aggregated a \<subseteq> aggregated c"
    using stableD1 [OF assms(1)] stableD1 [OF assms(2)] by blast
next
  fix k assume k: "k \<in> aggregated a"
  then have "k \<in> aggregated b" using stableD1 [OF assms(1)] by blast
  then show "procs c k = procs a k"
    using stableD2 [OF assms(2)] stableD2 [OF assms(1) k] by simp
next
  fix k assume "procs a k = None"
  then show "procs c k = None" using stableD3 [OF assms(1)] stableD3 [OF assms(2)] by blast
qed

lemma write_unmarked_stable:
  assumes "pid \<notin> aggregated s" "procs s pid \<noteq> None" "aggregated s \<subseteq> aggregated s'"
    "procs s' = (procs s)(pid \<mapsto> v)"
  shows "stable s s'"
  unfolding stable_def using assms by auto

lemma edge_rtranclp_antitone:
  assumes "aggregated st \<subseteq> aggregated sj" "dom (procs sj) = dom (procs st)"
    and "(edge cm sj)\<^sup>*\<^sup>* x y"
  shows "(edge cm st)\<^sup>*\<^sup>* x y"
  using assms(3)
proof (induction rule: rtranclp_induct)
  case base
  show ?case by simp
next
  case (step y z)
  have "edge cm st y z" using assms(1,2) step.hyps(2) by (rule edge_antitone)
  with step.IH show ?case by (rule rtranclp.rtrancl_into_rtrancl)
qed

lemma accp_transfer:
  assumes sub: "aggregated st \<subseteq> aggregated sj" and dm: "dom (procs sj) = dom (procs st)"
    and new: "\<And>x. x \<in> aggregated sj \<Longrightarrow> x \<notin> aggregated st \<Longrightarrow> Wellfounded.accp (edge cm st) x"
    and acc: "Wellfounded.accp (edge cm sj) z"
  shows "Wellfounded.accp (edge cm st) z"
  using acc
proof (induction rule: accp.induct)
  case (accI z)
  show ?case
  proof (rule accp.intros)
    fix y assume e: "edge cm st y z"
    show "Wellfounded.accp (edge cm st) y"
    proof (cases "z \<in> aggregated sj")
      case True
      moreover have "z \<notin> aggregated st" using e by (simp add: edge_def)
      ultimately have "Wellfounded.accp (edge cm st) z" using new by blast
      then show ?thesis using e by (rule accp_downward)
    next
      case False
      have "procs sj z \<noteq> None" using e dm by (metis domIff edge_def)
      then have "edge cm sj y z" using e False by (simp add: edge_def)
      then show ?thesis by (rule accI.IH)
    qed
  qed
qed

lemma isRelatedToParent_parent_cong:
  assumes "Name p' = Name p"
  shows "isRelatedToParent c p' = isRelatedToParent c p"
  unfolding isRelatedToParent_def assms ..

lemma isThread_parent_cong:
  assumes "Name p' = Name p" "MemoryBytes p' = MemoryBytes p"
  shows "isThread c p' = isThread c p"
  unfolding isThread_def assms ..

lemma childEntry_parent_cong:
  assumes "Name p' = Name p" "MemoryBytes p' = MemoryBytes p"
  shows "childEntry c p' = childEntry c p"
  unfolding childEntry_def isThread_parent_cong [OF assms] ..

lemma node_final_ps0_cong:
  assumes "ps0' x = ps0 x"
  shows "node_final cm ps0' s x = node_final cm ps0 s x"
  unfolding node_final_def assms ..

lemma node_final_Some:
  "node_final cm ps0 s x =
     (\<exists>i0. ps0 x = Some i0 \<and> procs s x = Some (aggregatedInfo cm (procs s) x i0) \<and>
        (\<forall>cs. cm x = Some cs \<longrightarrow> (\<forall>c\<in>set cs. c \<in> aggregated s \<or> procs s c = None)))"
  unfolding node_final_def by (cases "ps0 x"; cases "cm x"; simp)

lemma node_finalD:
  assumes "node_final cm ps0 s x"
  shows "\<exists>i0. ps0 x = Some i0 \<and> procs s x = Some (aggregatedInfo cm (procs s) x i0) \<and>
        (\<forall>cs. cm x = Some cs \<longrightarrow> (\<forall>c\<in>set cs. c \<in> aggregated s \<or> procs s c = None))"
  using assms by (rule iffD1 [OF node_final_Some])

lemma aggregatedInfo_cong:
  assumes "\<forall>cs. cm x = Some cs \<longrightarrow> (\<forall>c\<in>set cs. ps' c = ps c)"
  shows "aggregatedInfo cm ps' x i0 = aggregatedInfo cm ps x i0"
proof (cases "cm x")
  case None
  show ?thesis unfolding aggregatedInfo_def None option.case ..
next
  case (Some cs)
  then have "relatedEntries ps' i0 cs = relatedEntries ps i0 cs"
    using assms by (intro relatedEntries_cong) blast
  then show ?thesis unfolding aggregatedInfo_def Some option.case by (rule arg_cong)
qed

lemma node_finalI:
  assumes "ps0 x = Some i0" "procs s x = Some (aggregatedInfo cm (procs s) x i0)"
    "\<forall>cs. cm x = Some cs \<longrightarrow> (\<forall>c\<in>set cs. c \<in> aggregated s \<or> procs s c = None)"
  shows "node_final cm ps0 s x"
  by (rule iffD2 [OF node_final_Some]) (use assms in simp)

lemma node_final_stable:
  assumes nf: "node_final cm ps0 s x" and x: "x \<in> aggregated s" and st: "stable s s'"
  shows "node_final cm ps0 s' x"
proof -
  from node_finalD [OF nf] obtain i0 where all3:
    "ps0 x = Some i0 \<and> procs s x = Some (aggregatedInfo cm (procs s) x i0) \<and>
     (\<forall>cs. cm x = Some cs \<longrightarrow> (\<forall>c\<in>set cs. c \<in> aggregated s \<or> procs s c = None))" ..
  have i0: "ps0 x = Some i0" using all3 by (rule conjunct1)
  have px: "procs s x = Some (aggregatedInfo cm (procs s) x i0)"
    using all3 by (rule conjunct2 [THEN conjunct1])
  have ch: "\<forall>cs. cm x = Some cs \<longrightarrow> (\<forall>c\<in>set cs. c \<in> aggregated s \<or> procs s c = None)"
    using all3 by (rule conjunct2 [THEN conjunct2])
  have same: "\<forall>cs. cm x = Some cs \<longrightarrow> (\<forall>c\<in>set cs. procs s' c = procs s c)"
  proof (intro allI impI ballI)
    fix cs c assume "cm x = Some cs" "c \<in> set cs"
    then have "c \<in> aggregated s \<or> procs s c = None" using ch by simp
    then show "procs s' c = procs s c"
    proof
      assume "c \<in> aggregated s"
      with st show ?thesis by (rule stableD2)
    next
      assume n: "procs s c = None"
      with st have "procs s' c = None" by (rule stableD3)
      then show ?thesis unfolding n .
    qed
  qed
  have ai: "aggregatedInfo cm (procs s') x i0 = aggregatedInfo cm (procs s) x i0"
    using same by (rule aggregatedInfo_cong)
  have "procs s' x = procs s x" using st x by (rule stableD2)
  then have p': "procs s' x = Some (aggregatedInfo cm (procs s') x i0)"
    unfolding ai px .
  have ch': "\<forall>cs. cm x = Some cs \<longrightarrow> (\<forall>c\<in>set cs. c \<in> aggregated s' \<or> procs s' c = None)"
  proof (intro allI impI ballI)
    fix cs c assume "cm x = Some cs" "c \<in> set cs"
    then have "c \<in> aggregated s \<or> procs s c = None" using ch by simp
    then show "c \<in> aggregated s' \<or> procs s' c = None"
      using stableD1 [OF st] stableD3 [OF st] by auto
  qed
  show ?thesis using i0 p' ch' by (rule node_finalI)
qed

lemma call_post_stable:
  assumes "call_post cm pid st st'"
  shows "stable st st'"
proof (rule stableI)
  show "aggregated st \<subseteq> aggregated st'" using assms by (simp add: call_post_def)
next
  fix k assume "k \<in> aggregated st"
  then show "procs st' k = procs st k" using assms by (simp add: call_post_def)
next
  fix k assume "procs st k = None"
  moreover have "dom (procs st') = dom (procs st)" using assms by (simp add: call_post_def)
  ultimately show "procs st' k = None" by (metis domIff)
qed

lemma absorbChild_cases:
  fixes acc :: "('c::plus) \<times> 64 word \<times> bool"
  assumes p: "procs s1 pid = Some info"
  shows "absorbChild pid c acc s1 =
     (case procs s1 c of
        None \<Rightarrow> (acc, s1)
      | Some ci \<Rightarrow>
          if isRelatedToParent ci info
          then ((fst acc + CPUPercent ci, fst (snd acc) + MemoryBytes ci, True),
                s1\<lparr>procs := (procs s1)(pid \<mapsto> info\<lparr>Children := Children info @ [childEntry ci info]\<rparr>)\<rparr>)
          else (acc, s1))"
  unfolding absorbChild_def childEntry_def p by (simp add: Let_def split: option.splits)

lemma absorbChild_result:
  fixes acc :: "('c::plus) \<times> 64 word \<times> bool"
  assumes p: "procs s1 pid = Some info" and n: "Name info = Name i0"
    and m: "MemoryBytes info = MemoryBytes i0"
    and ab: "absorbChild pid c acc s1 = (acc', s2)"
  shows "aggregated s2 = aggregated s1 \<and>
         (\<forall>k. k \<noteq> pid \<longrightarrow> procs s2 k = procs s1 k) \<and>
         procs s2 pid = Some (info\<lparr>Children := Children info @ relatedEntries (procs s1) i0 [c]\<rparr>) \<and>
         acc' = (foldl (+) (fst acc) (map cCPUPercent (relatedEntries (procs s1) i0 [c])),
                 foldl (+) (fst (snd acc)) (map cMemoryBytes (relatedEntries (procs s1) i0 [c])),
                 snd (snd acc) \<or> relatedEntries (procs s1) i0 [c] \<noteq> [])"
proof (cases "procs s1 c")
  case None
  then have "acc' = acc" "s2 = s1" using ab unfolding absorbChild_cases [OF p] by simp_all
  then show ?thesis using None p by (cases acc) simp
next
  case (Some ci)
  have r: "isRelatedToParent ci info = isRelatedToParent ci i0"
    using n by (rule isRelatedToParent_parent_cong)
  have e: "childEntry ci info = childEntry ci i0"
    using n m by (rule childEntry_parent_cong)
  show ?thesis
  proof (cases "isRelatedToParent ci i0")
    case False
    then have "acc' = acc" "s2 = s1"
      using ab Some r unfolding absorbChild_cases [OF p] by simp_all
    then show ?thesis using Some False p by (cases acc) simp
  next
    case True
    then have a: "acc' = (fst acc + CPUPercent ci, fst (snd acc) + MemoryBytes ci, True)"
      and s: "s2 = s1\<lparr>procs := (procs s1)(pid \<mapsto> info\<lparr>Children := Children info @ [childEntry ci i0]\<rparr>)\<rparr>"
      using ab Some r e unfolding absorbChild_cases [OF p] by simp_all
    have re: "relatedEntries (procs s1) i0 [c] = [childEntry ci i0]"
      using Some True by simp
    show ?thesis unfolding re a s by (simp add: childEntry_def)
  qed
qed

lemma loop_invD:
  assumes "loop_inv cm pid i0 st cs1 acc sj"
  shows "aggregated st \<subseteq> aggregated sj"
    and "pid \<notin> aggregated sj"
    and "dom (procs sj) = dom (procs st)"
    and "procs sj pid =
           Some (i0\<lparr>Children := Children i0 @ relatedEntries (procs sj) i0 cs1,
                    ParentCPU := CPUPercent i0, ParentMemory := MemoryBytes i0\<rparr>)"
    and "acc = (foldl (+) (CPUPercent i0) (map cCPUPercent (relatedEntries (procs sj) i0 cs1)),
                foldl (+) (MemoryBytes i0) (map cMemoryBytes (relatedEntries (procs sj) i0 cs1)),
                relatedEntries (procs sj) i0 cs1 \<noteq> [])"
    and "\<And>k. k \<noteq> pid \<Longrightarrow> k \<notin> aggregated sj \<or> k \<in> aggregated st \<Longrightarrow> procs sj k = procs st k"
    and "\<And>x. x \<in> aggregated sj \<Longrightarrow> x \<notin> aggregated st \<Longrightarrow>
           (edge cm st)\<^sup>*\<^sup>* x pid \<and> Wellfounded.accp (edge cm st) x \<and>
           node_final cm (procs st) sj x"
    and "\<And>c. c \<in> set cs1 \<Longrightarrow>
           (c \<in> aggregated sj \<or> procs sj c = None) \<and> Wellfounded.accp (edge cm st) c"
  using assms unfolding loop_inv_def by simp_all

lemma call_postD:
  assumes "call_post cm pid st st'"
  shows "aggregated st \<subseteq> aggregated st'"
    and "dom (procs st') = dom (procs st)"
    and "\<And>k. k \<notin> aggregated st' \<or> k \<in> aggregated st \<Longrightarrow> procs st' k = procs st k"
    and "Wellfounded.accp (edge cm st) pid"
    and "\<And>x. x \<in> aggregated st' \<Longrightarrow> x \<notin> aggregated st \<Longrightarrow>
           (edge cm st)\<^sup>*\<^sup>* x pid \<and> node_final cm (procs st) st' x"
    and "procs st pid \<noteq> None \<Longrightarrow> pid \<in> aggregated st'"
  using assms unfolding call_post_def by simp_all

lemma edgeI:
  "p \<notin> aggregated st \<Longrightarrow> procs st p = Some i \<Longrightarrow> cm p = Some cs \<Longrightarrow> c \<in> set cs
     \<Longrightarrow> edge cm st c p"
  unfolding edge_def by simp

lemma edgeD:
  assumes "edge cm st c p"
  shows "p \<notin> aggregated st" and "procs st p \<noteq> None" and "\<exists>cs. cm p = Some cs \<and> c \<in> set cs"
  using assms unfolding edge_def by (simp_all split: option.splits)

lemma loop_step:
  fixes st :: "('c::plus) aggState"
  assumes post: "call_post cm c sj s1"
    and cmp: "cm pid = Some cs" and cin: "c \<in> set cs"
    and i0: "procs st pid = Some i0" and nst: "pid \<notin> aggregated st"
    and inv: "loop_inv cm pid i0 st cs1 acc sj"
    and ab: "absorbChild pid c acc s1 = (acc', s2)"
  shows "loop_inv cm pid i0 st (cs1 @ [c]) acc' s2"
proof -
  note I = loop_invD [OF inv]
  note P = call_postD [OF post]
  let ?es = "\<lambda>s cs. relatedEntries (procs s) i0 cs"
  let ?info = "\<lambda>es. i0\<lparr>Children := Children i0 @ es,
                    ParentCPU := CPUPercent i0, ParentMemory := MemoryBytes i0\<rparr>"
  have ecj: "edge cm sj c pid"
    using I(2) I(4) cmp cin by (rule edgeI)
  have crux: "pid \<notin> aggregated s1"
  proof
    assume "pid \<in> aggregated s1"
    then have "(edge cm sj)\<^sup>*\<^sup>* pid c" using P(5) I(2) by simp
    with P(4) show False using ecj by (rule accp_no_back_edge)
  qed
  have p1: "procs s1 pid = Some (?info (?es sj cs1))"
    using P(3) [of pid] crux I(4) by simp
  have st1: "stable sj s1" using post by (rule call_post_stable)
  have same1: "\<forall>c'\<in>set cs1. procs s1 c' = procs sj c'"
  proof
    fix c' assume "c' \<in> set cs1"
    then have "c' \<in> aggregated sj \<or> procs sj c' = None" using I(8) by simp
    then show "procs s1 c' = procs sj c'"
      using stableD2 [OF st1] stableD3 [OF st1] by metis
  qed
  have re1: "?es s1 cs1 = ?es sj cs1" using same1 by (rule relatedEntries_cong)
  have cdone: "c \<in> aggregated s1 \<or> procs s1 c = None"
  proof (cases "procs sj c")
    case None
    then show ?thesis using stableD3 [OF st1] by simp
  next
    case (Some a)
    then show ?thesis using P(6) by simp
  qed
  have p1': "procs s1 pid = Some (?info (?es s1 cs1))" using p1 re1 by simp
  note A = absorbChild_result [OF p1' _ _ ab, of i0, simplified]
  have agg2: "aggregated s2 = aggregated s1" using A by simp
  have oth2: "\<And>k. k \<noteq> pid \<Longrightarrow> procs s2 k = procs s1 k" using A by simp
  have p2: "procs s2 pid = Some (?info (?es s1 cs1 @ ?es s1 [c]))" using A by simp
  have acc2: "acc' = (foldl (+) (fst acc) (map cCPUPercent (?es s1 [c])),
                 foldl (+) (fst (snd acc)) (map cMemoryBytes (?es s1 [c])),
                 snd (snd acc) \<or> ?es s1 [c] \<noteq> [])" using A by simp
  have st2: "stable s1 s2"
  proof (rule stableI)
    show "aggregated s1 \<subseteq> aggregated s2" using agg2 by simp
  next
    fix k assume "k \<in> aggregated s1"
    then have "k \<noteq> pid" using crux by auto
    then show "procs s2 k = procs s1 k" by (rule oth2)
  next
    fix k assume n: "procs s1 k = None"
    then have "k \<noteq> pid" using p1 by auto
    then show "procs s2 k = None" using oth2 n by simp
  qed
  have notin: "\<forall>c'\<in>set (cs1 @ [c]). c' \<noteq> pid \<and> (c' \<in> aggregated s1 \<or> procs s1 c' = None)"
  proof
    fix c' assume "c' \<in> set (cs1 @ [c])"
    then consider "c' = c" | "c' \<in> set cs1" by auto
    then have "c' \<in> aggregated s1 \<or> procs s1 c' = None"
    proof cases
      case 1
      then show ?thesis using cdone by simp
    next
      case 2
      then have "c' \<in> aggregated sj \<or> procs sj c' = None" using I(8) by simp
      then show ?thesis using stableD1 [OF st1] stableD3 [OF st1] by auto
    qed
    then show "c' \<noteq> pid \<and> (c' \<in> aggregated s1 \<or> procs s1 c' = None)"
      using crux p1 by auto
  qed
  have same2: "\<forall>c'\<in>set (cs1 @ [c]). procs s2 c' = procs s1 c'"
    using notin oth2 by simp
  have re2: "?es s2 (cs1 @ [c]) = ?es s1 cs1 @ ?es s1 [c]"
    using relatedEntries_cong [OF same2] by (simp add: relatedEntries_append)
  have dom2: "dom (procs s2) = dom (procs st)"
  proof -
    have "dom (procs s2) = dom (procs s1)"
    proof (rule set_eqI)
      fix k show "(k \<in> dom (procs s2)) = (k \<in> dom (procs s1))"
      proof (cases "k = pid")
        case True
        then show ?thesis using p1 p2 by (simp add: domIff)
      next
        case False
        then have "procs s2 k = procs s1 k" by (rule oth2)
        then show ?thesis by (simp add: domIff)
      qed
    qed
    then show ?thesis using P(2) I(3) by simp
  qed
  have ecst: "edge cm st c pid" using nst i0 cmp cin by (rule edgeI)
  have accc: "Wellfounded.accp (edge cm st) c"
  proof (rule accp_transfer [OF I(1) I(3) _ P(4)])
    fix x assume "x \<in> aggregated sj" "x \<notin> aggregated st"
    then show "Wellfounded.accp (edge cm st) x" using I(7) by simp
  qed
  show ?thesis
    unfolding loop_inv_def
  proof (intro conjI)
    show "aggregated st \<subseteq> aggregated s2" using I(1) P(1) agg2 by auto
    show "pid \<notin> aggregated s2" using crux agg2 by simp
    show "dom (procs s2) = dom (procs st)" by (rule dom2)
    show "procs s2 pid = Some (?info (?es s2 (cs1 @ [c])))" using p2 re2 by simp
    show "acc' = (foldl (+) (CPUPercent i0) (map cCPUPercent (?es s2 (cs1 @ [c]))),
                  foldl (+) (MemoryBytes i0) (map cMemoryBytes (?es s2 (cs1 @ [c]))),
                  ?es s2 (cs1 @ [c]) \<noteq> [])"
      unfolding re2 acc2 using I(5) re1 by simp
    show "\<forall>k. k \<noteq> pid \<longrightarrow> k \<notin> aggregated s2 \<or> k \<in> aggregated st \<longrightarrow> procs s2 k = procs st k"
    proof (intro allI impI)
      fix k assume k: "k \<noteq> pid" and d: "k \<notin> aggregated s2 \<or> k \<in> aggregated st"
      have a: "procs s2 k = procs s1 k" using k by (rule oth2)
      have "k \<notin> aggregated s1 \<or> k \<in> aggregated sj" using d agg2 I(1) by auto
      then have b: "procs s1 k = procs sj k" by (rule P(3))
      have "k \<notin> aggregated sj \<or> k \<in> aggregated st" using d agg2 P(1) by auto
      with k have "procs sj k = procs st k" by (rule I(6))
      then show "procs s2 k = procs st k" using a b by simp
    qed
    show "\<forall>x\<in>aggregated s2 - aggregated st.
            (edge cm st)\<^sup>*\<^sup>* x pid \<and> Wellfounded.accp (edge cm st) x \<and>
            node_final cm (procs st) s2 x"
    proof
      fix x assume "x \<in> aggregated s2 - aggregated st"
      then have x1: "x \<in> aggregated s1" and xst: "x \<notin> aggregated st" using agg2 by auto
      show "(edge cm st)\<^sup>*\<^sup>* x pid \<and> Wellfounded.accp (edge cm st) x \<and>
            node_final cm (procs st) s2 x"
      proof (cases "x \<in> aggregated sj")
        case True
        then have "node_final cm (procs st) sj x" using I(7) xst by simp
        then have "node_final cm (procs st) s1 x" using True st1 by (rule node_final_stable)
        then have "node_final cm (procs st) s2 x" using x1 st2 by (rule node_final_stable)
        then show ?thesis using I(7) True xst by simp
      next
        case False
        have r: "(edge cm sj)\<^sup>*\<^sup>* x c" and nf: "node_final cm (procs sj) s1 x"
          using P(5) x1 False by simp_all
        have r': "(edge cm st)\<^sup>*\<^sup>* x c" using I(1) I(3) r by (rule edge_rtranclp_antitone)
        then have r'': "(edge cm st)\<^sup>*\<^sup>* x pid"
          using ecst by (rule rtranclp.rtrancl_into_rtrancl)
        have ax: "Wellfounded.accp (edge cm st) x" using accc r' by (rule accp_downwards)
        have "x \<noteq> pid" using x1 crux by auto
        then have "procs sj x = procs st x" using False by (intro I(6)) simp_all
        then have "node_final cm (procs st) s1 x"
          using nf node_final_ps0_cong [of "procs sj" x "procs st" cm s1] by simp
        then have "node_final cm (procs st) s2 x" using x1 st2 by (rule node_final_stable)
        then show ?thesis using r'' ax by simp
      qed
    qed
    show "\<forall>c'\<in>set (cs1 @ [c]).
            (c' \<in> aggregated s2 \<or> procs s2 c' = None) \<and> Wellfounded.accp (edge cm st) c'"
    proof
      fix c' assume c': "c' \<in> set (cs1 @ [c])"
      with notin have "c' \<noteq> pid \<and> (c' \<in> aggregated s1 \<or> procs s1 c' = None)"
        by (rule bspec)
      then have "c' \<in> aggregated s1 \<or> procs s1 c' = None" by (rule conjunct2)
      then have 1: "c' \<in> aggregated s2 \<or> procs s2 c' = None"
        using agg2 stableD3 [OF st2] by auto
      from c' consider "c' = c" | "c' \<in> set cs1" by auto
      then have "Wellfounded.accp (edge cm st) c'"
      proof cases
        case 1
        then show ?thesis using accc by simp
      next
        case 2
        then show ?thesis using I(8) by simp
      qed
      then show "(c' \<in> aggregated s2 \<or> procs s2 c' = None) \<and> Wellfounded.accp (edge cm st) c'"
        using 1 by simp
    qed
  qed
qed

lemma aggregateChildren_inv:
  fixes st :: "('c::plus) aggState"
  assumes recp: "\<And>c s s'. rec c s = Some s' \<Longrightarrow> call_post cm c s s'"
    and cmp: "cm pid = Some cs" and i0: "procs st pid = Some i0" and nst: "pid \<notin> aggregated st"
  shows "aggregateChildren rec pid cs2 acc sj = Some (acc', sk) \<Longrightarrow> set cs2 \<subseteq> set cs \<Longrightarrow>
           loop_inv cm pid i0 st cs1 acc sj \<Longrightarrow> loop_inv cm pid i0 st (cs1 @ cs2) acc' sk"
proof (induction cs2 arbitrary: cs1 acc sj)
  case Nil
  then show ?case by simp
next
  case (Cons c rest)
  from Cons.prems(1) obtain s1 where r: "rec c sj = Some s1"
    by (cases "rec c sj") simp_all
  obtain acc1 s2 where ab: "absorbChild pid c acc s1 = (acc1, s2)"
    by (cases "absorbChild pid c acc s1")
  have rest: "aggregateChildren rec pid rest acc1 s2 = Some (acc', sk)"
    using Cons.prems(1) r ab by simp
  have cin: "c \<in> set cs" and sub: "set rest \<subseteq> set cs" using Cons.prems(2) by simp_all
  have "loop_inv cm pid i0 st (cs1 @ [c]) acc1 s2"
    by (rule loop_step [OF recp [OF r] cmp cin i0 nst Cons.prems(3) ab])
  with rest sub have "loop_inv cm pid i0 st ((cs1 @ [c]) @ rest) acc' sk"
    by (rule Cons.IH)
  then show ?case by simp
qed

lemma call_post_skip:
  fixes st :: "('c::plus) aggState"
  assumes "pid \<in> aggregated st \<or> procs st pid = None"
  shows "call_post cm pid st st"
proof -
  have "Wellfounded.accp (edge cm st) pid"
  proof (rule accp.intros)
    fix y assume "edge cm st y pid"
    then have "pid \<notin> aggregated st" "procs st pid \<noteq> None" by (rule edgeD)+
    then show "Wellfounded.accp (edge cm st) y" using assms by simp
  qed
  then show ?thesis unfolding call_post_def using assms by auto
qed

lemma withTotals_eq:
  fixes i0 :: "('c::plus) ProcessInfo"
  shows "(if es \<noteq> []
          then (i0\<lparr>Children := Children i0 @ es, ParentCPU := CPUPercent i0,
                    ParentMemory := MemoryBytes i0\<rparr>)
                 \<lparr>CPUPercent := foldl (+) (CPUPercent i0) (map cCPUPercent es),
                  MemoryBytes := foldl (+) (MemoryBytes i0) (map cMemoryBytes es),
                  MemoryMB := toMB (foldl (+) (MemoryBytes i0) (map cMemoryBytes es))\<rparr>
          else (i0\<lparr>Children := Children i0 @ es, ParentCPU := CPUPercent i0,
                    ParentMemory := MemoryBytes i0\<rparr>)
                 \<lparr>MemoryMB := toMB (MemoryBytes i0)\<rparr>)
         = withTotals i0 es"
  by (cases i0) (simp add: withTotals_def)

lemma storeTotals_result:
  fixes st :: "('c::plus) aggState"
  assumes inv: "loop_inv cm pid i0 st cs acc sk"
  shows "procs (storeTotals pid acc sk) =
           (procs sk)(pid \<mapsto> withTotals i0 (relatedEntries (procs sk) i0 cs))"
    and "aggregated (storeTotals pid acc sk) = insert pid (aggregated sk)"
proof -
  note I = loop_invD [OF inv]
  show "aggregated (storeTotals pid acc sk) = insert pid (aggregated sk)"
    unfolding storeTotals_def using I(4) by simp
  have "procs (storeTotals pid acc sk) =
          (procs sk)(pid \<mapsto>
            (if relatedEntries (procs sk) i0 cs \<noteq> []
             then (i0\<lparr>Children := Children i0 @ relatedEntries (procs sk) i0 cs,
                       ParentCPU := CPUPercent i0, ParentMemory := MemoryBytes i0\<rparr>)
                    \<lparr>CPUPercent := foldl (+) (CPUPercent i0)
                                     (map cCPUPercent (relatedEntries (procs sk) i0 cs)),
                     MemoryBytes := foldl (+) (MemoryBytes i0)
                                     (map cMemoryBytes (relatedEntries (procs sk) i0 cs)),
                     MemoryMB := toMB (foldl (+) (MemoryBytes i0)
                                     (map cMemoryBytes (relatedEntries (procs sk) i0 cs)))\<rparr>
             else (i0\<lparr>Children := Children i0 @ relatedEntries (procs sk) i0 cs,
                       ParentCPU := CPUPercent i0, ParentMemory := MemoryBytes i0\<rparr>)
                    \<lparr>MemoryMB := toMB (MemoryBytes i0)\<rparr>))"
    unfolding storeTotals_def using I(4) I(5) by simp
  then show "procs (storeTotals pid acc sk) =
           (procs sk)(pid \<mapsto> withTotals i0 (relatedEntries (procs sk) i0 cs))"
    unfolding withTotals_eq .
qed

lemma call_post_leaf:
  fixes st :: "('c::plus) aggState"
  assumes nst: "pid \<notin> aggregated st" and i0: "procs st pid = Some info" and cmn: "cm pid = None"
    and st': "st' = st\<lparr>procs := (procs st)(pid \<mapsto> info\<lparr>MemoryMB := toMB (MemoryBytes info)\<rparr>),
                      aggregated := insert pid (aggregated st)\<rparr>"
  shows "call_post cm pid st st'"
proof -
  have acc: "Wellfounded.accp (edge cm st) pid"
  proof (rule accp.intros)
    fix y assume "edge cm st y pid"
    then have "\<exists>cs. cm pid = Some cs \<and> y \<in> set cs" by (rule edgeD)
    then show "Wellfounded.accp (edge cm st) y" using cmn by simp
  qed
  have nf: "node_final cm (procs st) st' pid"
  proof (rule node_finalI [where ?ps0.0 = "procs st" and x = pid and ?i0.0 = info])
    show "procs st pid = Some info" by (rule i0)
    show "procs st' pid = Some (aggregatedInfo cm (procs st') pid info)"
      unfolding aggregatedInfo_def cmn st' by simp
    show "\<forall>cs. cm pid = Some cs \<longrightarrow> (\<forall>c\<in>set cs. c \<in> aggregated st' \<or> procs st' c = None)"
      using cmn by simp
  qed
  have dm: "dom (procs st') = dom (procs st)" unfolding st' using i0 by auto
  show ?thesis
    unfolding call_post_def
  proof (intro conjI)
    show "aggregated st \<subseteq> aggregated st'" unfolding st' by auto
    show "dom (procs st') = dom (procs st)" by (rule dm)
    show "\<forall>k. k \<notin> aggregated st' \<or> k \<in> aggregated st \<longrightarrow> procs st' k = procs st k"
      unfolding st' using nst by auto
    show "Wellfounded.accp (edge cm st) pid" by (rule acc)
    show "\<forall>x\<in>aggregated st' - aggregated st.
            (edge cm st)\<^sup>*\<^sup>* x pid \<and> node_final cm (procs st) st' x"
    proof
      fix x assume "x \<in> aggregated st' - aggregated st"
      then have "x = pid" unfolding st' by auto
      then show "(edge cm st)\<^sup>*\<^sup>* x pid \<and> node_final cm (procs st) st' x" using nf by simp
    qed
    show "procs st pid \<noteq> None \<longrightarrow> pid \<in> aggregated st'" unfolding st' by simp
  qed
qed

lemma loop_inv_start:
  fixes st :: "('c::plus) aggState"
  assumes nst: "pid \<notin> aggregated st" and i0: "procs st pid = Some info"
  shows "loop_inv cm pid info st [] (CPUPercent info, MemoryBytes info, False)
           (st\<lparr>procs := (procs st)(pid \<mapsto>
                  info\<lparr>ParentCPU := CPUPercent info, ParentMemory := MemoryBytes info\<rparr>)\<rparr>)"
proof -
  have r: "info\<lparr>Children := Children info @ [], ParentCPU := CPUPercent info,
                 ParentMemory := MemoryBytes info\<rparr>
           = info\<lparr>ParentCPU := CPUPercent info, ParentMemory := MemoryBytes info\<rparr>"
    by (cases info) simp
  have d: "dom ((procs st)(pid \<mapsto>
                  info\<lparr>ParentCPU := CPUPercent info, ParentMemory := MemoryBytes info\<rparr>))
           = dom (procs st)"
    using i0 by auto
  show ?thesis
    unfolding loop_inv_def using nst d r by simp
qed

lemma call_post_node:
  fixes st :: "('c::plus) aggState"
  assumes recp: "\<And>c s s'. rec c s = Some s' \<Longrightarrow> call_post cm c s s'"
    and nst: "pid \<notin> aggregated st" and i0: "procs st pid = Some info"
    and cmp: "cm pid = Some cs"
    and loop: "aggregateChildren rec pid cs (CPUPercent info, MemoryBytes info, False)
                 (st\<lparr>procs := (procs st)(pid \<mapsto>
                        info\<lparr>ParentCPU := CPUPercent info, ParentMemory := MemoryBytes info\<rparr>)\<rparr>)
               = Some (acc, s1)"
  shows "call_post cm pid st (storeTotals pid acc s1)"
proof -
  let ?s' = "storeTotals pid acc s1"
  have "loop_inv cm pid info st ([] @ cs) acc s1"
    using recp cmp i0 nst loop subset_refl loop_inv_start [OF nst i0]
    by (rule aggregateChildren_inv)
  then have inv: "loop_inv cm pid info st cs acc s1" by simp
  note I = loop_invD [OF inv]
  note R = storeTotals_result [OF inv]
  have p1: "procs s1 pid \<noteq> None" using I(4) by simp
  have st2: "stable s1 ?s'"
    using I(2) p1 _ R(1) by (rule write_unmarked_stable) (simp add: R(2) subset_insertI)
  have chn: "\<forall>c\<in>set cs. c \<noteq> pid \<and> (c \<in> aggregated s1 \<or> procs s1 c = None)"
  proof
    fix c assume "c \<in> set cs"
    then have "c \<in> aggregated s1 \<or> procs s1 c = None" using I(8) by simp
    then show "c \<noteq> pid \<and> (c \<in> aggregated s1 \<or> procs s1 c = None)" using I(2) p1 by auto
  qed
  have same: "\<forall>c\<in>set cs. procs ?s' c = procs s1 c"
    using chn unfolding R(1) by simp
  have re: "relatedEntries (procs ?s') info cs = relatedEntries (procs s1) info cs"
    using same by (rule relatedEntries_cong)
  have nf: "node_final cm (procs st) ?s' pid"
  proof (rule node_finalI [where ?ps0.0 = "procs st" and x = pid and ?i0.0 = info])
    show "procs st pid = Some info" by (rule i0)
    show "procs ?s' pid = Some (aggregatedInfo cm (procs ?s') pid info)"
      unfolding aggregatedInfo_def cmp option.case re unfolding R(1) by simp
    show "\<forall>cs. cm pid = Some cs \<longrightarrow> (\<forall>c\<in>set cs. c \<in> aggregated ?s' \<or> procs ?s' c = None)"
    proof (intro allI impI ballI)
      fix cs' c assume "cm pid = Some cs'" "c \<in> set cs'"
      then have "c \<in> set cs" using cmp by simp
      with chn have "c \<noteq> pid \<and> (c \<in> aggregated s1 \<or> procs s1 c = None)" by (rule bspec)
      then show "c \<in> aggregated ?s' \<or> procs ?s' c = None"
        using stableD1 [OF st2] stableD3 [OF st2] by auto
    qed
  qed
  have acp: "Wellfounded.accp (edge cm st) pid"
  proof (rule accp.intros)
    fix y assume "edge cm st y pid"
    then have "\<exists>cs. cm pid = Some cs \<and> y \<in> set cs" by (rule edgeD)
    then have "y \<in> set cs" using cmp by simp
    then show "Wellfounded.accp (edge cm st) y" using I(8) by simp
  qed
  have dm: "dom (procs ?s') = dom (procs st)"
  proof -
    have "dom (procs ?s') = insert pid (dom (procs s1))" unfolding R(1) by simp
    also have "\<dots> = dom (procs s1)" using p1 by auto
    finally show ?thesis using I(3) by simp
  qed
  show ?thesis
    unfolding call_post_def
  proof (intro conjI)
    show "aggregated st \<subseteq> aggregated ?s'" using I(1) unfolding R(2) by auto
    show "dom (procs ?s') = dom (procs st)" by (rule dm)
    show "\<forall>k. k \<notin> aggregated ?s' \<or> k \<in> aggregated st \<longrightarrow> procs ?s' k = procs st k"
    proof (intro allI impI)
      fix k assume d: "k \<notin> aggregated ?s' \<or> k \<in> aggregated st"
      then have k: "k \<noteq> pid" using nst unfolding R(2) by auto
      have "k \<notin> aggregated s1 \<or> k \<in> aggregated st" using d unfolding R(2) by auto
      with k have "procs s1 k = procs st k" by (rule I(6))
      then show "procs ?s' k = procs st k" using k unfolding R(1) by simp
    qed
    show "Wellfounded.accp (edge cm st) pid" by (rule acp)
    show "\<forall>x\<in>aggregated ?s' - aggregated st.
            (edge cm st)\<^sup>*\<^sup>* x pid \<and> node_final cm (procs st) ?s' x"
    proof
      fix x assume x: "x \<in> aggregated ?s' - aggregated st"
      show "(edge cm st)\<^sup>*\<^sup>* x pid \<and> node_final cm (procs st) ?s' x"
      proof (cases "x = pid")
        case True
        then show ?thesis using nf by simp
      next
        case False
        then have x1: "x \<in> aggregated s1" and xs: "x \<notin> aggregated st"
          using x unfolding R(2) by auto
        then have "node_final cm (procs st) s1 x" using I(7) by simp
        then have "node_final cm (procs st) ?s' x" using x1 st2 by (rule node_final_stable)
        then show ?thesis using I(7) x1 xs by simp
      qed
    qed
    show "procs st pid \<noteq> None \<longrightarrow> pid \<in> aggregated ?s'" unfolding R(2) by simp
  qed
qed

theorem aggregateResources_post:
  fixes st :: "('c::plus) aggState"
  shows "aggregateResources depth cm pid st = Some st' \<Longrightarrow> call_post cm pid st st'"
proof (induction depth arbitrary: pid st st')
  case 0
  then show ?case by simp
next
  case (Suc depth)
  show ?case
  proof (cases "pid \<in> aggregated st \<or> procs st pid = None")
    case True
    then have "st' = st" using Suc.prems by (auto split: option.splits)
    then show ?thesis using True call_post_skip by simp
  next
    case False
    then obtain info where nst: "pid \<notin> aggregated st" and i0: "procs st pid = Some info"
      by auto
    show ?thesis
    proof (cases "cm pid")
      case None
      then have "st' = st\<lparr>procs := (procs st)(pid \<mapsto> info\<lparr>MemoryMB := toMB (MemoryBytes info)\<rparr>),
                      aggregated := insert pid (aggregated st)\<rparr>"
        using Suc.prems nst i0 by simp
      with nst i0 None show ?thesis by (rule call_post_leaf)
    next
      case (Some cs)
      from Suc.prems nst i0 Some obtain acc s1 where
        loop: "aggregateChildren (aggregateResources depth cm) pid cs
                 (CPUPercent info, MemoryBytes info, False)
                 (st\<lparr>procs := (procs st)(pid \<mapsto>
                        info\<lparr>ParentCPU := CPUPercent info, ParentMemory := MemoryBytes info\<rparr>)\<rparr>)
               = Some (acc, s1)"
        and st': "st' = storeTotals pid acc s1"
        by (auto split: option.splits)
      have "call_post cm pid st (storeTotals pid acc s1)"
        using Suc.IH nst i0 Some loop by (rule call_post_node)
      then show ?thesis using st' by simp
    qed
  qed
qed

lemma pass_invD:
  assumes "pass_inv cm st0 st"
  shows "aggregated st0 \<subseteq> aggregated st"
    and "dom (procs st) = dom (procs st0)"
    and "\<And>k. k \<notin> aggregated st \<or> k \<in> aggregated st0 \<Longrightarrow> procs st k = procs st0 k"
    and "\<And>x. x \<in> aggregated st \<Longrightarrow> x \<notin> aggregated st0 \<Longrightarrow>
           node_final cm (procs st0) st x \<and> Wellfounded.accp (edge cm st0) x"
  using assms unfolding pass_inv_def by simp_all

lemma pass_inv_refl: "pass_inv cm st0 st0"
  unfolding pass_inv_def by simp

lemma pass_inv_step:
  fixes st :: "('c::plus) aggState"
  assumes inv: "pass_inv cm st0 st" and call: "aggregateResources depth cm pid st = Some s1"
  shows "pass_inv cm st0 s1" and "procs st0 pid \<noteq> None \<Longrightarrow> pid \<in> aggregated s1"
proof -
  note I = pass_invD [OF inv]
  have post: "call_post cm pid st s1" using call by (rule aggregateResources_post)
  note P = call_postD [OF post]
  have st1: "stable st s1" using post by (rule call_post_stable)
  show "pid \<in> aggregated s1" if "procs st0 pid \<noteq> None"
  proof -
    have "procs st pid \<noteq> None" using that I(2) by (metis domIff)
    then show ?thesis by (rule P(6))
  qed
  have newacc: "\<And>x. x \<in> aggregated st \<Longrightarrow> x \<notin> aggregated st0 \<Longrightarrow> Wellfounded.accp (edge cm st0) x"
    using I(4) by simp
  show "pass_inv cm st0 s1"
    unfolding pass_inv_def
  proof (intro conjI)
    show "aggregated st0 \<subseteq> aggregated s1" using I(1) P(1) by auto
    show "dom (procs s1) = dom (procs st0)" using I(2) P(2) by simp
    show "\<forall>k. k \<notin> aggregated s1 \<or> k \<in> aggregated st0 \<longrightarrow> procs s1 k = procs st0 k"
    proof (intro allI impI)
      fix k assume d: "k \<notin> aggregated s1 \<or> k \<in> aggregated st0"
      then have "k \<notin> aggregated s1 \<or> k \<in> aggregated st" using I(1) by auto
      then have a: "procs s1 k = procs st k" by (rule P(3))
      have "k \<notin> aggregated st \<or> k \<in> aggregated st0" using d P(1) by auto
      then have "procs st k = procs st0 k" by (rule I(3))
      then show "procs s1 k = procs st0 k" using a by simp
    qed
    show "\<forall>x\<in>aggregated s1 - aggregated st0.
            node_final cm (procs st0) s1 x \<and> Wellfounded.accp (edge cm st0) x"
    proof
      fix x assume x: "x \<in> aggregated s1 - aggregated st0"
      show "node_final cm (procs st0) s1 x \<and> Wellfounded.accp (edge cm st0) x"
      proof (cases "x \<in> aggregated st")
        case True
        then have n: "node_final cm (procs st0) st x" and a: "Wellfounded.accp (edge cm st0) x"
          using I(4) x by simp_all
        from n True st1 have "node_final cm (procs st0) s1 x" by (rule node_final_stable)
        then show ?thesis using a by simp
      next
        case False
        then have r: "(edge cm st)\<^sup>*\<^sup>* x pid" and nf: "node_final cm (procs st) s1 x"
          using P(5) x by simp_all
        have "Wellfounded.accp (edge cm st) x" using P(4) r by (rule accp_downwards)
        with I(1) I(2) newacc have a: "Wellfounded.accp (edge cm st0) x"
          by (rule accp_transfer)
        have "procs st x = procs st0 x" using False by (intro I(3)) simp
        then have "node_final cm (procs st0) s1 x"
          using nf node_final_ps0_cong [of "procs st" x "procs st0" cm s1] by simp
        then show ?thesis using a by simp
      qed
    qed
  qed
qed

lemma secondPass_inv:
  fixes st :: "('c::plus) aggState"
  shows "secondPass depth cm keys st = Some st' \<Longrightarrow> pass_inv cm st0 st \<Longrightarrow>
           pass_inv cm st0 st' \<and>
           (\<forall>k\<in>set keys. procs st0 k \<noteq> None \<longrightarrow> k \<in> aggregated st')"
proof (induction keys arbitrary: st st0)
  case Nil
  then show ?case by simp
next
  case (Cons pid pids)
  from Cons.prems(1) obtain s1 where call: "aggregateResources depth cm pid st = Some s1"
    and rest: "secondPass depth cm pids s1 = Some st'"
    by (cases "aggregateResources depth cm pid st") simp_all
  note S = pass_inv_step [OF Cons.prems(2) call]
  have IH: "pass_inv cm st0 st' \<and> (\<forall>k\<in>set pids. procs st0 k \<noteq> None \<longrightarrow> k \<in> aggregated st')"
    using rest S(1) by (rule Cons.IH)
  have "pass_inv cm s1 st' \<and> (\<forall>k\<in>set pids. procs s1 k \<noteq> None \<longrightarrow> k \<in> aggregated st')"
    using rest pass_inv_refl by (rule Cons.IH)
  then have "pass_inv cm s1 st'" by (rule conjunct1)
  then have mono: "aggregated s1 \<subseteq> aggregated st'" by (rule pass_invD(1))
  have "procs st0 pid \<noteq> None \<longrightarrow> pid \<in> aggregated st'"
    using S(2) mono by auto
  then show ?case using IH by simp
qed

lemma getProcessInfo_Inr:
  assumes "getProcessInfo mp p = Inr (info, mp')"
  shows "PID info = Pid p" and "Children info = []" and "mp' = mp(Pid p \<mapsto> info)"
  using assms unfolding getProcessInfo_def
  by (auto simp: Let_def split: sum.splits)

lemma firstPass_fresh:
  "\<forall>k i. allProcesses s k = Some i \<longrightarrow> PID i = k \<and> Children i = [] \<Longrightarrow>
   allProcesses (firstPass ps s) k = Some i \<Longrightarrow> PID i = k \<and> Children i = []"
proof (induction ps arbitrary: s)
  case Nil
  then show ?case by simp
next
  case (Cons p ps)
  show ?case
  proof (cases "getProcessInfo (mprocesses s) p")
    case (Inl e)
    then show ?thesis using Cons by simp
  next
    case (Inr r)
    obtain info mp' where r: "r = (info, mp')" by (cases r)
    note G = getProcessInfo_Inr [OF Inr [unfolded r]]
    let ?s' = "\<lparr>allProcesses = (allProcesses s)(PID info \<mapsto> info),
             childrenMap = (if PPID info \<noteq> 0
                            then appendChild (childrenMap s) (PPID info) (PID info)
                            else childrenMap s),
             mprocesses = mp'\<rparr>"
    have f: "\<forall>k i. allProcesses ?s' k = Some i \<longrightarrow> PID i = k \<and> Children i = []"
      using Cons.prems(1) G(2) by auto
    have "allProcesses (firstPass ps ?s') k = Some i"
      using Cons.prems(2) Inr r by simp
    with f show ?thesis by (rule Cons.IH)
  qed
qed

lemma collect_fresh:
  assumes "allProcesses (collect m ps) k = Some i"
  shows "PID i = k" and "Children i = []"
proof -
  have "\<forall>k i. allProcesses \<lparr>allProcesses = Map.empty, childrenMap = Map.empty,
                   mprocesses = processes m\<rparr> k = Some i \<longrightarrow> PID i = k \<and> Children i = []"
    by simp
  then have "PID i = k \<and> Children i = []"
    using assms unfolding collect_def by (rule firstPass_fresh)
  then show "PID i = k" and "Children i = []" by simp_all
qed

lemma firstPass_dom:
  "dom (allProcesses (firstPass ps s)) \<subseteq> dom (allProcesses s) \<union> Pid ` set ps"
proof (induction ps arbitrary: s)
  case Nil
  then show ?case by simp
next
  case (Cons p ps)
  show ?case
  proof (cases "getProcessInfo (mprocesses s) p")
    case (Inl e)
    then show ?thesis using Cons [of s] by auto
  next
    case (Inr r)
    obtain info mp' where r: "r = (info, mp')" by (cases r)
    note G = getProcessInfo_Inr [OF Inr [unfolded r]]
    let ?s' = "\<lparr>allProcesses = (allProcesses s)(PID info \<mapsto> info),
             childrenMap = (if PPID info \<noteq> 0
                            then appendChild (childrenMap s) (PPID info) (PID info)
                            else childrenMap s),
             mprocesses = mp'\<rparr>"
    have "dom (allProcesses (firstPass ps ?s')) \<subseteq> dom (allProcesses ?s') \<union> Pid ` set ps"
      by (rule Cons)
    then show ?thesis using Inr r G(1) by auto
  qed
qed

lemma collect_dom: "dom (allProcesses (collect m ps)) \<subseteq> Pid ` set ps"
  using firstPass_dom [of ps "\<lparr>allProcesses = Map.empty, childrenMap = Map.empty,
                   mprocesses = processes m\<rparr>"]
  unfolding collect_def by simp

lemma aggregatedInfo_static:
  fixes i0 :: "('c::plus) ProcessInfo"
  shows "PID (aggregatedInfo cm ps k i0) = PID i0"
    and "PPID (aggregatedInfo cm ps k i0) = PPID i0"
    and "Name (aggregatedInfo cm ps k i0) = Name i0"
    and "Expanded (aggregatedInfo cm ps k i0) = Expanded i0"
  unfolding aggregatedInfo_def withTotals_def by (simp_all split: option.splits)

lemma aggregateAll_inv:
  fixes s :: "('c::plus) collected"
  assumes "aggregateAll depth ord2 s = Some st"
  shows "pass_inv (childrenMap s) \<lparr>procs = allProcesses s, aggregated = {}\<rparr> st"
    and "\<And>k. k \<in> set ord2 \<Longrightarrow> allProcesses s k \<noteq> None \<Longrightarrow> k \<in> aggregated st"
proof -
  let ?st0 = "\<lparr>procs = allProcesses s, aggregated = {}\<rparr> :: 'c aggState"
  have "pass_inv (childrenMap s) ?st0 st \<and>
        (\<forall>k\<in>set (range_keys ord2 (allProcesses s)). procs ?st0 k \<noteq> None \<longrightarrow> k \<in> aggregated st)"
    using assms [unfolded aggregateAll_def] pass_inv_refl by (rule secondPass_inv)
  then show "pass_inv (childrenMap s) ?st0 st"
    and "\<And>k. k \<in> set ord2 \<Longrightarrow> allProcesses s k \<noteq> None \<Longrightarrow> k \<in> aggregated st"
    unfolding range_keys_def by simp_all
qed

lemma aggregateAll_final:
  fixes s :: "('c::plus) collected"
  assumes agg: "aggregateAll depth ord2 s = Some st" and k: "procs st k = Some info"
  shows "\<exists>i0. allProcesses s k = Some i0 \<and>
           (info = i0 \<or>
            info = aggregatedInfo (childrenMap s) (procs st) k i0 \<and>
            node_final (childrenMap s) (allProcesses s) st k)"
proof -
  note I = pass_invD [OF aggregateAll_inv(1) [OF agg], simplified]
  show ?thesis
  proof (cases "k \<in> aggregated st")
    case False
    then have "procs st k = allProcesses s k" using I(3) by simp
    then have "allProcesses s k = Some info" using k by simp
    then show ?thesis by (intro exI [of _ info]) simp
  next
    case True
    then have nf: "node_final (childrenMap s) (allProcesses s) st k" using I(4) by simp
    from node_finalD [OF nf] obtain i0 where
      "allProcesses s k = Some i0 \<and>
       procs st k = Some (aggregatedInfo (childrenMap s) (procs st) k i0) \<and>
       (\<forall>cs. childrenMap s k = Some cs \<longrightarrow> (\<forall>c\<in>set cs. c \<in> aggregated st \<or> procs st c = None))" ..
    then have a: "allProcesses s k = Some i0"
      and b: "info = aggregatedInfo (childrenMap s) (procs st) k i0" using k by simp_all
    show ?thesis using a b nf by (intro exI [of _ i0]) simp
  qed
qed

lemma aggregateAll_static:
  fixes s :: "('c::plus) collected"
  assumes agg: "aggregateAll depth ord2 s = Some st" and k: "procs st k = Some info"
  shows "\<exists>i0. allProcesses s k = Some i0 \<and> PID info = PID i0 \<and> PPID info = PPID i0 \<and>
           Name info = Name i0 \<and> Expanded info = Expanded i0"
  using aggregateAll_final [OF agg k] aggregatedInfo_static [of "childrenMap s" "procs st" k]
  by auto

lemma thirdPass_eq:
  assumes "\<And>k i. allp k = Some i \<Longrightarrow> PID i = k"
  shows "thirdPass cfg allp ks q =
           (\<lambda>k. if k \<in> set ks \<and> (\<exists>i. allp k = Some i \<and> qualifies cfg i) then allp k else q k)"
  using assms
proof (induction ks arbitrary: q)
  case Nil
  then show ?case by simp
next
  case (Cons k ks)
  show ?case
  proof (cases "allp k")
    case None
    then show ?thesis using Cons by (auto simp: fun_eq_iff)
  next
    case (Some i)
    then have "PID i = k" using Cons.prems by simp
    then show ?thesis using Some Cons by (auto simp: fun_eq_iff)
  qed
qed

lemma set_fourthPass:
  "set (fourthPass q ks acc) = set acc \<union> {i. \<exists>k\<in>set ks. q k = Some i \<and> q (PPID i) = None}"
  by (induction ks arbitrary: acc) (auto split: option.splits)

lemma set_range_keys: "set (range_keys ord m) = set ord \<inter> dom m"
  by (auto simp: range_keys_def)

lemma set_topLevel:
  "dom q \<subseteq> set ord4 \<Longrightarrow> set (topLevel ord4 q) = {i. i \<in> ran q \<and> q (PPID i) = None}"
  by (auto simp: topLevel_def set_fourthPass set_range_keys ran_def dom_def subset_iff)

lemma getProcessInfo_Inr_readable:
  assumes "getProcessInfo mp q = Inr (info, mp')"
  shows "readable q" and "PPID info \<noteq> 0 \<Longrightarrow> Ppid_call q = Inr (PPID info)"
  using assms unfolding getProcessInfo_def readable_def
  by (auto simp: Let_def split: sum.splits)

lemma appendChild_mem:
  assumes "appendChild cm pp c' p = Some cs" "c \<in> set cs"
  shows "(\<exists>cs0. cm p = Some cs0 \<and> c \<in> set cs0) \<or> (p = pp \<and> c = c')"
  using assms unfolding appendChild_def by (auto split: if_splits option.splits)

lemma firstPass_childrenMap:
  "childrenMap (firstPass ps s) p = Some cs \<Longrightarrow> c \<in> set cs \<Longrightarrow>
     (\<exists>cs0. childrenMap s p = Some cs0 \<and> c \<in> set cs0) \<or>
     (\<exists>q\<in>set ps. readable q \<and> Pid q = c \<and> Ppid_call q = Inr p \<and> p \<noteq> 0)"
proof (induction ps arbitrary: s)
  case Nil
  then show ?case by simp
next
  case (Cons a ps)
  show ?case
  proof (cases "getProcessInfo (mprocesses s) a")
    case (Inl e)
    then have "childrenMap (firstPass ps s) p = Some cs" using Cons.prems(1) by simp
    from Cons.IH [OF this Cons.prems(2)] show ?thesis by auto
  next
    case (Inr r)
    obtain info mp' where r: "r = (info, mp')" by (cases r)
    note G = getProcessInfo_Inr [OF Inr [unfolded r]]
    note R = getProcessInfo_Inr_readable [OF Inr [unfolded r]]
    let ?s' = "\<lparr>allProcesses = (allProcesses s)(PID info \<mapsto> info),
             childrenMap = (if PPID info \<noteq> 0
                            then appendChild (childrenMap s) (PPID info) (PID info)
                            else childrenMap s),
             mprocesses = mp'\<rparr>"
    have "childrenMap (firstPass ps ?s') p = Some cs" using Cons.prems(1) Inr r by simp
    from Cons.IH [OF this Cons.prems(2)]
    consider (old) cs0 where "childrenMap ?s' p = Some cs0" "c \<in> set cs0"
      | (new) "\<exists>q\<in>set ps. readable q \<and> Pid q = c \<and> Ppid_call q = Inr p \<and> p \<noteq> 0"
      by auto
    then show ?thesis
    proof cases
      case new
      then show ?thesis by auto
    next
      case old
      show ?thesis
      proof (cases "PPID info = 0")
        case True
        then show ?thesis using old by auto
      next
        case False
        then have "appendChild (childrenMap s) (PPID info) (PID info) p = Some cs0"
          using old(1) by simp
        from appendChild_mem [OF this old(2)] show ?thesis
        proof
          assume "\<exists>cs0. childrenMap s p = Some cs0 \<and> c \<in> set cs0"
          then show ?thesis by simp
        next
          assume "p = PPID info \<and> c = PID info"
          then have "readable a \<and> Pid a = c \<and> Ppid_call a = Inr p \<and> p \<noteq> 0"
            using R(1) R(2) [OF False] G(1) False by simp
          then show ?thesis by auto
        qed
      qed
    qed
  qed
qed

lemma collect_childrenMap:
  assumes "childrenMap (collect m ps) p = Some cs" "c \<in> set cs"
  shows "\<exists>q\<in>set ps. readable q \<and> Pid q = c \<and> Ppid_call q = Inr p \<and> p \<noteq> 0"
  using firstPass_childrenMap [OF assms [unfolded collect_def]] by simp

lemma ranked_childrenMap:
  assumes "ranked h ps" "childrenMap (collect m ps) p = Some cs" "c \<in> set cs"
  shows "h c < h p"
proof -
  from collect_childrenMap [OF assms(2,3)] obtain q where
    q: "q \<in> set ps" "readable q" "Pid q = c" "Ppid_call q = Inr p" "p \<noteq> 0" by auto
  from assms(1) q(1) have "readable q \<longrightarrow>
        (case Ppid_call q of Inl err \<Rightarrow> True | Inr p \<Rightarrow> p \<noteq> 0 \<longrightarrow> h (Pid q) < h p)"
    unfolding ranked_def by (rule bspec)
  then show ?thesis using q by simp
qed

lemma aggregateChildren_total:
  assumes "\<And>c s. c \<in> set cs \<Longrightarrow> rec c s \<noteq> None"
  shows "aggregateChildren rec pid cs acc st \<noteq> None"
  using assms
proof (induction cs arbitrary: acc st)
  case Nil
  then show ?case by simp
next
  case (Cons c cs)
  have "rec c st \<noteq> None" using Cons.prems by simp
  then obtain s1 where s1: "rec c st = Some s1" by auto
  obtain acc' s2 where ab: "absorbChild pid c acc s1 = (acc', s2)"
    by (cases "absorbChild pid c acc s1")
  have "aggregateChildren rec pid cs acc' s2 \<noteq> None"
    using Cons.prems by (intro Cons.IH) simp
  then show ?case using s1 ab by simp
qed

lemma aggregateResources_total:
  fixes st :: "('c::plus) aggState"
  assumes up: "\<And>p cs c. cm p = Some cs \<Longrightarrow> c \<in> set cs \<Longrightarrow> h c < h p"
  shows "h pid < depth \<Longrightarrow> aggregateResources depth cm pid st \<noteq> None"
proof (induction depth arbitrary: pid st)
  case 0
  then show ?case by simp
next
  case (Suc depth)
  show ?case
  proof (cases "cm pid")
    case None
    then show ?thesis by (simp split: option.splits)
  next
    case (Some cs)
    have rec: "\<And>c (s :: 'c aggState). c \<in> set cs \<Longrightarrow> aggregateResources depth cm c s \<noteq> None"
    proof -
      fix c and s :: "'c aggState" assume "c \<in> set cs"
      with Some have "h c < h pid" by (rule up)
      then have "h c < depth" using Suc.prems by simp
      then show "aggregateResources depth cm c s \<noteq> None" by (rule Suc.IH)
    qed
    have "\<And>acc (s :: 'c aggState). aggregateChildren (aggregateResources depth cm) pid cs acc s \<noteq> None"
      using rec by (rule aggregateChildren_total)
    then have tot: "aggregateChildren (aggregateResources depth cm) pid cs acc s \<noteq> None"
      for acc and s :: "'c aggState" .
    show ?thesis
    proof (cases "pid \<in> aggregated st")
      case True
      then show ?thesis by simp
    next
      case False
      show ?thesis
      proof (cases "procs st pid")
        case None
        then show ?thesis using False by simp
      next
        case info: (Some info)
        obtain r where r: "aggregateChildren (aggregateResources depth cm) pid cs
                (CPUPercent info, MemoryBytes info, False)
                (st\<lparr>procs := (procs st)(pid \<mapsto>
                       info\<lparr>ParentCPU := CPUPercent info,
                            ParentMemory := MemoryBytes info\<rparr>)\<rparr>) = Some r"
          using tot by blast
        then show ?thesis using False info Some by (cases r) simp
      qed
    qed
  qed
qed

lemma secondPass_total:
  fixes st :: "('c::plus) aggState"
  assumes up: "\<And>p cs c. cm p = Some cs \<Longrightarrow> c \<in> set cs \<Longrightarrow> h c < h p"
  shows "\<forall>k\<in>set keys. h k < depth \<Longrightarrow> secondPass depth cm keys st \<noteq> None"
proof (induction keys arbitrary: st)
  case Nil
  then show ?case by simp
next
  case (Cons k keys)
  have "h k < depth" using Cons.prems by simp
  with up have "aggregateResources depth cm k st \<noteq> None" by (rule aggregateResources_total)
  then obtain s1 where s1: "aggregateResources depth cm k st = Some s1" by auto
  have "secondPass depth cm keys s1 \<noteq> None" using Cons.prems by (intro Cons.IH) simp
  then show ?case using s1 by simp
qed

lemma aggregateAll_total:
  fixes m :: "('c::{zero,plus}) Monitor"
  assumes r: "ranked h ps" and d: "\<forall>k\<in>set ord2. h k < depth"
  shows "\<exists>st. aggregateAll depth ord2 (collect m ps) = Some st"
proof -
  have up: "\<And>p cs c. childrenMap (collect m ps) p = Some cs \<Longrightarrow> c \<in> set cs \<Longrightarrow> h c < h p"
    using r by (rule ranked_childrenMap)
  have "\<forall>k\<in>set (range_keys ord2 (allProcesses (collect m ps))). h k < depth"
    using d unfolding range_keys_def by simp
  with up have "secondPass depth (childrenMap (collect m ps))
          (range_keys ord2 (allProcesses (collect m ps)))
          \<lparr>procs = allProcesses (collect m ps), aggregated = {}\<rparr> \<noteq> None"
    by (rule secondPass_total)
  then show ?thesis unfolding aggregateAll_def by auto
qed

section \<open>Classifier properties\<close>

lemma take_prefix_iff: "(length p \<le> length c \<and> take (length p) c = p) = prefix p c"
  by (metis prefix_def append_eq_conv_conj append_take_drop_id length_take min.absorb2 prefix_length_le take_is_prefix)

text \<open>
  C7.  When the parent's name is not a system-init name, \<open>isRelatedToParent\<close> holds
  exactly when the two names are equal or one of them is a prefix of the other
  (bytewise, hence case-sensitive); identical names, where both prefix directions hold,
  are related.
\<close>

theorem isRelatedToParent_name_matching:
  "Name parent \<notin> set systemParents \<Longrightarrow>
     isRelatedToParent child parent =
       (Name child = Name parent \<or> prefix (Name parent) (Name child)
          \<or> prefix (Name child) (Name parent))"
  by (auto simp: isRelatedToParent_def take_prefix_iff dest: prefix_length_le)

theorem isRelatedToParent_name_matching_witness:
  "Name (mkInfo 1 0 ''chrome'' 1 2) \<notin> set systemParents
   \<and> isRelatedToParent (mkInfo 2 1 ''chrome-gpu'' 1 2) (mkInfo 1 0 ''chrome'' 1 2)
   \<and> isRelatedToParent (mkInfo 2 1 ''code'' 1 2) (mkInfo 1 0 ''code'' 1 2)
   \<and> \<not> isRelatedToParent (mkInfo 2 1 ''nginx'' 1 2) (mkInfo 1 0 ''chrome'' 1 2)"
  using isRelatedToParent_name_matching [of "mkInfo 1 0 ''chrome'' 1 2" "mkInfo 2 1 ''chrome-gpu'' 1 2"]
    isRelatedToParent_name_matching [of "mkInfo 1 0 ''code'' 1 2" "mkInfo 2 1 ''code'' 1 2"]
    isRelatedToParent_name_matching [of "mkInfo 1 0 ''chrome'' 1 2" "mkInfo 2 1 ''nginx'' 1 2"]
  by (simp add: mkInfo_def systemParents_def)

section \<open>Ranking\<close>

lemma set_moveLeft: "set (moveLeft lt x r) = insert x (set r)"
  by (induction r) auto

lemma set_sort_Slice: "set (sort_Slice lt xs) = set xs"
proof -
  have "set (foldl (\<lambda>r x. moveLeft lt x r) r0 xs) = set r0 \<union> set xs" for r0
    by (induction xs arbitrary: r0) (auto simp: set_moveLeft)
  then show ?thesis unfolding sort_Slice_def by simp
qed

lemma sorted_moveLeft:
  fixes f :: "'a \<Rightarrow> 'b::ord"
  assumes le: "\<And>a b::'b. a < b \<Longrightarrow> a \<le> b"
    and tot: "\<And>a b::'b. \<not> a < b \<Longrightarrow> b \<le> a"
    and tr: "\<And>a b c::'b. a \<le> b \<Longrightarrow> b \<le> c \<Longrightarrow> a \<le> c"
  shows "sorted_wrt (\<lambda>a b. f a \<le> f b) r \<Longrightarrow>
         sorted_wrt (\<lambda>a b. f a \<le> f b) (moveLeft (\<lambda>a b. f a > f b) x r)"
proof (induction r)
  case Nil
  then show ?case by simp
next
  case (Cons y ys)
  show ?case
  proof (cases "f x > f y")
    case True
    then have "f y \<le> f x" by (rule le)
    then show ?thesis using True Cons by (auto simp: set_moveLeft)
  next
    case False
    then have xy: "f x \<le> f y" by (rule tot)
    have "\<forall>z\<in>set ys. f x \<le> f z"
    proof
      fix z assume "z \<in> set ys"
      then have "f y \<le> f z" using Cons.prems by simp
      with xy show "f x \<le> f z" by (rule tr)
    qed
    then show ?thesis using False xy Cons.prems by simp
  qed
qed

lemma sorted_sort_Slice:
  fixes f :: "'a \<Rightarrow> 'b::ord"
  assumes le: "\<And>a b::'b. a < b \<Longrightarrow> a \<le> b"
    and tot: "\<And>a b::'b. \<not> a < b \<Longrightarrow> b \<le> a"
    and tr: "\<And>a b c::'b. a \<le> b \<Longrightarrow> b \<le> c \<Longrightarrow> a \<le> c"
  shows "sorted_wrt (\<lambda>a b. f a \<ge> f b) (sort_Slice (\<lambda>a b. f a > f b) xs)"
proof -
  have "sorted_wrt (\<lambda>a b. f a \<le> f b) r0 \<Longrightarrow>
        sorted_wrt (\<lambda>a b. f a \<le> f b) (foldl (\<lambda>r x. moveLeft (\<lambda>a b. f a > f b) x r) r0 xs)" for r0
  proof (induction xs arbitrary: r0)
    case Nil
    then show ?case by simp
  next
    case (Cons x xs)
    have "sorted_wrt (\<lambda>a b. f a \<le> f b) (moveLeft (\<lambda>a b. f a > f b) x r0)"
      using le tot tr Cons.prems by (rule sorted_moveLeft)
    then show ?case using Cons.IH by simp
  qed
  then have "sorted_wrt (\<lambda>a b. f a \<le> f b) (foldl (\<lambda>r x. moveLeft (\<lambda>a b. f a > f b) x r) [] xs)"
    by simp
  then show ?thesis unfolding sort_Slice_def sorted_wrt_rev .
qed

lemma returned_Inr:
  assumes "returned (GetFilteredProcesses depth ord2 ord3 ord4 m (Inr ps)) = Some (Inr xs)"
  shows "\<exists>st. aggregateAll depth ord2 (collect m ps) = Some st \<and>
           xs = sort_Slice (\<lambda>a b. CPUPercent a > CPUPercent b)
                  (topLevel ord4 (qualifyingProcesses (config m) ord3 st))"
  using assms unfolding returned_def GetFilteredProcesses_def
  by (cases "aggregateAll depth ord2 (collect m ps)") simp_all

lemma returned_total:
  fixes m :: "('c::{zero,plus,ord}) Monitor"
  assumes "aggregateAll depth ord2 (collect m ps) = Some st"
  shows "returned (GetFilteredProcesses depth ord2 ord3 ord4 m (Inr ps)) =
           Some (Inr (sort_Slice (\<lambda>a b. CPUPercent a > CPUPercent b)
                  (topLevel ord4 (qualifyingProcesses (config m) ord3 st))))"
  using assms unfolding returned_def GetFilteredProcesses_def by simp

lemma chrome3_result:
  "returned (GetFilteredProcesses 2 [3, 2, 1] [1, 2, 3] [3, 1, 2] mon0 (Inr chrome3)) =
     Some (Inr [\<lparr>PID = 1, PPID = 0, Name = ''chrome'', CPUPercent = 55 / 10,
                 MemoryBytes = 136314880, MemoryMB = 130,
                 Children = [\<lparr>cPID = 2, cName = ''chrome-gpu'', cCPUPercent = 23 / 10,
                              cMemoryBytes = 47185920, IsThread = True\<rparr>],
                 Expanded = False, ParentCPU = 32 / 10, ParentMemory = 89128960\<rparr>,
                mkInfo 3 0 ''nginx'' (52 / 10) 0])"
  by code_simp

lemma chrome3_ranked: "ranked rank1 chrome3"
  by (simp add: ranked_def chrome3_def mkProc_def readable_def rank1_def)

text \<open>
  C10.  On a snapshot whose parent links form no cycle (they go upward in some rank
  \<open>h\<close>) and with room for a recursion as deep as the ranks, \<open>GetFilteredProcesses\<close>
  returns a slice, whatever the three map enumerations are, and the slice is in
  descending order of the aggregated \<open>CPUPercent\<close>: every element is at least as large
  as every later one, in particular each adjacent pair.  The comparisons of CPU values
  are assumed to form a total preorder, as they do on doubles other than NaN.
  Nothing is said about the order of equal values.  (On a cycle of parent links the
  call does not return, see C2.)
\<close>

theorem ranking_order:
  fixes m :: "('c::{zero,plus,ord}) Monitor"
  assumes acyclic: "ranked h ps" and deep: "\<forall>k\<in>set ord2. h k < depth"
    and le: "\<And>a b::'c. a < b \<Longrightarrow> a \<le> b"
    and tot: "\<And>a b::'c. \<not> a < b \<Longrightarrow> b \<le> a"
    and tr: "\<And>a b c::'c. a \<le> b \<Longrightarrow> b \<le> c \<Longrightarrow> a \<le> c"
  shows "\<exists>xs. returned (GetFilteredProcesses depth ord2 ord3 ord4 m (Inr ps)) = Some (Inr xs) \<and>
           sorted_wrt (\<lambda>a b. CPUPercent a \<ge> CPUPercent b) xs"
proof -
  from aggregateAll_total [OF acyclic deep] obtain st where
    st: "aggregateAll depth ord2 (collect m ps) = Some st" by blast
  let ?xs = "sort_Slice (\<lambda>a b. CPUPercent a > CPUPercent b)
                  (topLevel ord4 (qualifyingProcesses (config m) ord3 st))"
  have "sorted_wrt (\<lambda>a b. CPUPercent a \<ge> CPUPercent b) ?xs"
    using le tot tr by (rule sorted_sort_Slice)
  then show ?thesis using returned_total [OF st] by blast
qed

theorem ranking_order_witness:
  "ranked rank1 chrome3 \<and> rank1 3 < 2 \<and> rank1 2 < 2 \<and> rank1 1 < 2
   \<and> returned (GetFilteredProcesses 2 [3, 2, 1] [1, 2, 3] [3, 1, 2] mon0 (Inr chrome3)) =
     Some (Inr [\<lparr>PID = 1, PPID = 0, Name = ''chrome'', CPUPercent = 55 / 10,
                 MemoryBytes = 136314880, MemoryMB = 130,
                 Children = [\<lparr>cPID = 2, cName = ''chrome-gpu'', cCPUPercent = 23 / 10,
                              cMemoryBytes = 47185920, IsThread = True\<rparr>],
                 Expanded = False, ParentCPU = 32 / 10, ParentMemory = 89128960\<rparr>,
                mkInfo 3 0 ''nginx'' (52 / 10) 0])
   \<and> sorted_wrt (\<lambda>a b. CPUPercent a \<ge> CPUPercent b)
        [\<lparr>PID = 1, PPID = 0, Name = ''chrome'', CPUPercent = 55 / 10,
                 MemoryBytes = 136314880, MemoryMB = 130,
                 Children = [\<lparr>cPID = 2, cName = ''chrome-gpu'', cCPUPercent = 23 / 10,
                              cMemoryBytes = 47185920, IsThread = True\<rparr>],
                 Expanded = False, ParentCPU = 32 / 10, ParentMemory = 89128960\<rparr>,
                mkInfo 3 0 ''nginx'' (52 / 10) 0]"
proof -
  have d: "\<forall>k\<in>set [3, 2, 1]. rank1 k < 2" by (simp add: rank1_def)
  have "\<exists>xs. returned (GetFilteredProcesses 2 [3, 2, 1] [1, 2, 3] [3, 1, 2] mon0 (Inr chrome3))
                = Some (Inr xs) \<and> sorted_wrt (\<lambda>a b. CPUPercent a \<ge> CPUPercent b) xs"
    using chrome3_ranked d by (rule ranking_order) auto
  then have "sorted_wrt (\<lambda>a b. CPUPercent a \<ge> CPUPercent b)
        [\<lparr>PID = 1, PPID = 0, Name = ''chrome'', CPUPercent = 55 / 10,
                 MemoryBytes = 136314880, MemoryMB = 130,
                 Children = [\<lparr>cPID = 2, cName = ''chrome-gpu'', cCPUPercent = 23 / 10,
                              cMemoryBytes = 47185920, IsThread = True\<rparr>],
                 Expanded = False, ParentCPU = 32 / 10, ParentMemory = 89128960\<rparr>,
                mkInfo 3 0 ''nginx'' (52 / 10) 0]"
    unfolding chrome3_result by simp
  moreover have "rank1 3 < 2" "rank1 2 < 2" "rank1 1 < 2" by (simp_all add: rank1_def)
  ultimately show ?thesis using chrome3_ranked chrome3_result by (intro conjI)
qed

section \<open>Threshold qualification\<close>

lemma final_PID:
  fixes m :: "('c::{zero,plus}) Monitor"
  assumes agg: "aggregateAll depth ord2 (collect m ps) = Some st" and k: "procs st k = Some i"
  shows "PID i = k"
proof -
  from aggregateAll_static [OF agg k] obtain i0 where
    "allProcesses (collect m ps) k = Some i0" "PID i = PID i0" by auto
  then show ?thesis using collect_fresh(1) by simp
qed

lemma final_dom:
  fixes m :: "('c::{zero,plus}) Monitor"
  assumes agg: "aggregateAll depth ord2 (collect m ps) = Some st"
  shows "dom (procs st) \<subseteq> Pid ` set ps"
proof -
  have "dom (procs st) = dom (allProcesses (collect m ps))"
    using pass_invD(2) [OF aggregateAll_inv(1) [OF agg]] by simp
  then show ?thesis using collect_dom [of m ps] by simp
qed

lemma aggregateAll_complete:
  fixes m :: "('c::{zero,plus}) Monitor"
  assumes agg: "aggregateAll depth ord2 (collect m ps) = Some st"
    and cover: "Pid ` set ps \<subseteq> set ord2"
    and k: "allProcesses (collect m ps) k = Some i0"
  shows "procs st k = Some (aggregatedInfo (childrenMap (collect m ps)) (procs st) k i0)"
    and "node_final (childrenMap (collect m ps)) (allProcesses (collect m ps)) st k"
proof -
  have "k \<in> Pid ` set ps" using k collect_dom [of m ps] by auto
  then have "k \<in> set ord2" using cover by auto
  then have ka: "k \<in> aggregated st" using k aggregateAll_inv(2) [OF agg] by simp
  then show nf: "node_final (childrenMap (collect m ps)) (allProcesses (collect m ps)) st k"
    using pass_invD(4) [OF aggregateAll_inv(1) [OF agg]] by simp
  from node_finalD [OF nf] obtain i0' where
    "allProcesses (collect m ps) k = Some i0' \<and>
     procs st k = Some (aggregatedInfo (childrenMap (collect m ps)) (procs st) k i0') \<and>
     (\<forall>cs. childrenMap (collect m ps) k = Some cs \<longrightarrow>
        (\<forall>c\<in>set cs. c \<in> aggregated st \<or> procs st c = None))" ..
  then show "procs st k = Some (aggregatedInfo (childrenMap (collect m ps)) (procs st) k i0)"
    using k by simp
qed

lemma qualifyingProcesses_eq:
  fixes m :: "('c::{zero,plus,ord}) Monitor"
  assumes agg: "aggregateAll depth ord2 (collect m ps) = Some st"
    and cover: "Pid ` set ps \<subseteq> set ord3"
  shows "qualifyingProcesses cfg ord3 st k =
           (case procs st k of
              None \<Rightarrow> None
            | Some i \<Rightarrow> if qualifies cfg i then Some i else None)"
proof -
  have pid: "\<And>k i. procs st k = Some i \<Longrightarrow> PID i = k" using agg by (rule final_PID)
  have mem: "k \<in> set (range_keys ord3 (procs st)) \<longleftrightarrow> procs st k \<noteq> None"
    using final_dom [OF agg] cover unfolding set_range_keys by auto
  have e: "thirdPass cfg (procs st) (range_keys ord3 (procs st)) Map.empty =
             (\<lambda>k. if k \<in> set (range_keys ord3 (procs st)) \<and>
                        (\<exists>i. procs st k = Some i \<and> qualifies cfg i)
                     then procs st k else None)"
    by (rule thirdPass_eq) (rule pid)
  show ?thesis
    unfolding qualifyingProcesses_def e mem
    by (cases "procs st k") simp_all
qed

lemma small2_qualifying:
  "map_option (\<lambda>st. (map_option PID (qualifyingProcesses (config mon0) [1, 2] st 1),
                      map_option PID (qualifyingProcesses (config mon0) [1, 2] st 2)))
     (aggregateAll 2 [2, 1] (collect mon0 small2)) = Some (Some 1, None)"
  by code_simp

lemma small2_ranked: "ranked rank1 small2"
  by (simp add: ranked_def small2_def mkProc_def readable_def rank1_def)

lemma small2_cover: "Pid ` set small2 \<subseteq> set [2, 1]" "Pid ` set small2 \<subseteq> set [1, 2]"
  by (simp_all add: small2_def mkProc_def)

text \<open>
  C5.  On a snapshot without a cycle of parent links the call returns, and the keys of
  \<open>qualifyingProcesses\<close> are exactly the PIDs whose aggregated record (the record
  \<open>aggregatedInfo\<close> computes from the sample and the records of the children, which
  is the one the second pass has stored) has \<open>CPUPercent\<close> at least \<open>CPUThreshold\<close>
  or \<open>MemoryBytes\<close> at least \<open>MemoryThreshold\<close>; either suffices.  Every returned
  row is a value of that map.  In the witness neither process reaches a threshold
  with its own sample, and the parent qualifies with its aggregated CPU.
\<close>

theorem threshold_qualification:
  fixes m :: "('c::{zero,plus,ord}) Monitor"
  assumes acyclic: "ranked h ps" and deep: "\<forall>k\<in>set ord2. h k < depth"
    and cover2: "Pid ` set ps \<subseteq> set ord2" and cover3: "Pid ` set ps \<subseteq> set ord3"
  shows "\<exists>st xs. aggregateAll depth ord2 (collect m ps) = Some st \<and>
           returned (GetFilteredProcesses depth ord2 ord3 ord4 m (Inr ps)) = Some (Inr xs) \<and>
           set xs \<subseteq> ran (qualifyingProcesses (config m) ord3 st) \<and>
           (\<forall>k. (k \<in> dom (qualifyingProcesses (config m) ord3 st)) =
                 (\<exists>i0 info. allProcesses (collect m ps) k = Some i0 \<and>
                    info = aggregatedInfo (childrenMap (collect m ps)) (procs st) k i0 \<and>
                    procs st k = Some info \<and>
                    (CPUPercent info \<ge> CPUThreshold (config m) \<or>
                     MemoryBytes info \<ge> MemoryThreshold (config m))))"
proof -
  from aggregateAll_total [OF acyclic deep] obtain st where
    st: "aggregateAll depth ord2 (collect m ps) = Some st" by blast
  let ?q = "qualifyingProcesses (config m) ord3 st"
  let ?xs = "sort_Slice (\<lambda>a b. CPUPercent a > CPUPercent b) (topLevel ord4 ?q)"
  have r: "returned (GetFilteredProcesses depth ord2 ord3 ord4 m (Inr ps)) = Some (Inr ?xs)"
    using st by (rule returned_total)
  have sub: "set ?xs \<subseteq> ran ?q"
    unfolding topLevel_def by (auto simp: set_sort_Slice set_fourthPass ran_def)
  have iff: "(k \<in> dom ?q) =
                 (\<exists>i0 info. allProcesses (collect m ps) k = Some i0 \<and>
                    info = aggregatedInfo (childrenMap (collect m ps)) (procs st) k i0 \<and>
                    procs st k = Some info \<and>
                    (CPUPercent info \<ge> CPUThreshold (config m) \<or>
                     MemoryBytes info \<ge> MemoryThreshold (config m)))" for k
  proof (cases "allProcesses (collect m ps) k")
    case None
    then have "procs st k = None"
      using pass_invD(2) [OF aggregateAll_inv(1) [OF st]] by (metis domIff aggState.select_convs(1))
    then show ?thesis using None unfolding domIff qualifyingProcesses_eq [OF st cover3] by simp
  next
    case (Some i0)
    note C = aggregateAll_complete(1) [OF st cover2 Some]
    show ?thesis
      unfolding domIff qualifyingProcesses_eq [OF st cover3] C using Some
      by (simp add: qualifies_def)
  qed
  show ?thesis using st r sub iff by blast
qed

theorem threshold_qualification_witness:
  "ranked rank1 small2 \<and> rank1 2 < 2 \<and> rank1 1 < 2
   \<and> Pid ` set small2 \<subseteq> set [2, 1] \<and> Pid ` set small2 \<subseteq> set [1, 2]
   \<and> (\<exists>st. aggregateAll 2 [2, 1] (collect mon0 small2) = Some st
        \<and> qualifyingProcesses (config mon0) [1, 2] st 1 \<noteq> None
        \<and> qualifyingProcesses (config mon0) [1, 2] st 2 = None
        \<and> (1 \<in> dom (qualifyingProcesses (config mon0) [1, 2] st)) =
                 (\<exists>i0 info. allProcesses (collect mon0 small2) 1 = Some i0 \<and>
                    info = aggregatedInfo (childrenMap (collect mon0 small2)) (procs st) 1 i0 \<and>
                    procs st 1 = Some info \<and>
                    (CPUPercent info \<ge> CPUThreshold (config mon0) \<or>
                     MemoryBytes info \<ge> MemoryThreshold (config mon0))))"
proof -
  have d: "\<forall>k\<in>set [2, 1]. rank1 k < 2" by (simp add: rank1_def)
  from threshold_qualification [OF small2_ranked d small2_cover, of mon0 "[1, 2]"]
  obtain st where st: "aggregateAll 2 [2, 1] (collect mon0 small2) = Some st"
    and iff: "(1 \<in> dom (qualifyingProcesses (config mon0) [1, 2] st)) =
                 (\<exists>i0 info. allProcesses (collect mon0 small2) 1 = Some i0 \<and>
                    info = aggregatedInfo (childrenMap (collect mon0 small2)) (procs st) 1 i0 \<and>
                    procs st 1 = Some info \<and>
                    (CPUPercent info \<ge> CPUThreshold (config mon0) \<or>
                     MemoryBytes info \<ge> MemoryThreshold (config mon0)))"
    by blast
  have a: "qualifyingProcesses (config mon0) [1, 2] st 1 \<noteq> None"
    and b: "qualifyingProcesses (config mon0) [1, 2] st 2 = None"
    using small2_qualifying unfolding st by auto
  have "rank1 2 < 2" "rank1 1 < 2" by (simp_all add: rank1_def)
  then show ?thesis using small2_ranked small2_cover st a b iff by blast
qed

section \<open>Top-level representatives\<close>

lemma chain3_result:
  "returned (GetFilteredProcesses 3 [3, 2, 1] [1, 2, 3] [3, 1, 2] mon0 (Inr chain3)) =
     Some (Inr [(mkInfo 1 0 ''alpha'' 10 0)\<lparr>ParentCPU := 10\<rparr>, mkInfo 3 2 ''gamma'' 7 0])"
  by code_simp

lemma chain3_ranked: "ranked rank3 chain3"
  by (simp add: ranked_def chain3_def mkProc_def readable_def rank3_def)

lemma chain3_cover: "Pid ` set chain3 \<subseteq> set [1, 2, 3]" "Pid ` set chain3 \<subseteq> set [3, 1, 2]"
  by (simp_all add: chain3_def mkProc_def)

text \<open>
  Claim C3, as worded, asks that the returned sequence never holds a process together with a
  transitive ancestor. The fourth pass only looks at the direct parent: in \<open>chain3\<close>
  (\<open>gamma\<close> 3 under \<open>beta\<close> 2 under \<open>alpha\<close> 1, with \<open>beta\<close> below both thresholds)
  the call returns both \<open>alpha\<close> and its grandchild \<open>gamma\<close>.
\<close>

theorem no_double_counting_counterexample:
  "returned (GetFilteredProcesses 3 [3, 2, 1] [1, 2, 3] [3, 1, 2] mon0 (Inr chain3)) =
     Some (Inr [(mkInfo 1 0 ''alpha'' 10 0)\<lparr>ParentCPU := 10\<rparr>, mkInfo 3 2 ''gamma'' 7 0])
   \<and> PID ((mkInfo 1 0 ''alpha'' 10 0)\<lparr>ParentCPU := 10\<rparr>) = 1
   \<and> PID (mkInfo 3 2 ''gamma'' 7 0) = 3
   \<and> parentLink chain3 3 2 \<and> parentLink chain3 2 1
   \<and> (parentLink chain3)\<^sup>+\<^sup>+ 3 1"
proof -
  have a: "parentLink chain3 3 2" and b: "parentLink chain3 2 1"
    by (simp_all add: parentLink_def chain3_def mkProc_def)
  then have "(parentLink chain3)\<^sup>+\<^sup>+ 3 1" by (meson tranclp.simps)
  then show ?thesis using chain3_result a b by (simp add: mkInfo_def)
qed

text \<open>
  Claim C3 (amended): for a snapshot with acyclic parent links the call returns, the returned
  rows are exactly the qualifying records whose \<open>PPID\<close> is not a key of the qualifying map,
  and no returned row is the direct parent of another returned row.
\<close>

theorem no_direct_parent_returned:
  fixes m :: "('c::{zero,plus,ord}) Monitor"
  assumes acyclic: "ranked h ps" and deep: "\<forall>k\<in>set ord2. h k < depth"
    and cover3: "Pid ` set ps \<subseteq> set ord3" and cover4: "Pid ` set ps \<subseteq> set ord4"
  shows "\<exists>st xs. aggregateAll depth ord2 (collect m ps) = Some st \<and>
           returned (GetFilteredProcesses depth ord2 ord3 ord4 m (Inr ps)) = Some (Inr xs) \<and>
           set xs = {i. i \<in> ran (qualifyingProcesses (config m) ord3 st) \<and>
                        qualifyingProcesses (config m) ord3 st (PPID i) = None} \<and>
           (\<forall>a\<in>set xs. \<forall>b\<in>set xs. PPID a \<noteq> PID b)"
proof -
  from aggregateAll_total [OF acyclic deep] obtain st where
    st: "aggregateAll depth ord2 (collect m ps) = Some st" by blast
  let ?q = "qualifyingProcesses (config m) ord3 st"
  let ?xs = "sort_Slice (\<lambda>a b. CPUPercent a > CPUPercent b) (topLevel ord4 ?q)"
  have r: "returned (GetFilteredProcesses depth ord2 ord3 ord4 m (Inr ps)) = Some (Inr ?xs)"
    using st by (rule returned_total)
  have qk: "?q k = Some i \<Longrightarrow> procs st k = Some i" for k i
    unfolding qualifyingProcesses_eq [OF st cover3]
    by (cases "procs st k") (simp_all split: if_splits)
  have "dom ?q \<subseteq> dom (procs st)" using qk by (auto simp: domIff)
  then have dq: "dom ?q \<subseteq> set ord4" using final_dom [OF st] cover4 by blast
  have sx: "set ?xs = {i. i \<in> ran ?q \<and> ?q (PPID i) = None}"
    unfolding set_sort_Slice using dq by (rule set_topLevel)
  have key: "?q (PID b) = Some b" if "b \<in> ran ?q" for b
  proof -
    from that obtain k where k: "?q k = Some b" by (auto simp: ran_def)
    then have "procs st k = Some b" by (rule qk)
    with st have "PID b = k" by (rule final_PID)
    then show ?thesis using k by simp
  qed
  have "\<forall>a\<in>set ?xs. \<forall>b\<in>set ?xs. PPID a \<noteq> PID b"
  proof (intro ballI)
    fix a b assume "a \<in> set ?xs" "b \<in> set ?xs"
    then have "?q (PPID a) = None" and "b \<in> ran ?q" unfolding sx by simp_all
    then show "PPID a \<noteq> PID b" using key [of b] by auto
  qed
  then show ?thesis using st r sx by blast
qed

theorem no_direct_parent_returned_witness:
  "ranked rank3 chain3 \<and> rank3 3 < 3 \<and> rank3 2 < 3 \<and> rank3 1 < 3
   \<and> Pid ` set chain3 \<subseteq> set [1, 2, 3] \<and> Pid ` set chain3 \<subseteq> set [3, 1, 2]
   \<and> returned (GetFilteredProcesses 3 [3, 2, 1] [1, 2, 3] [3, 1, 2] mon0 (Inr chain3)) =
     Some (Inr [(mkInfo 1 0 ''alpha'' 10 0)\<lparr>ParentCPU := 10\<rparr>, mkInfo 3 2 ''gamma'' 7 0])
   \<and> PPID ((mkInfo 1 0 ''alpha'' 10 0)\<lparr>ParentCPU := 10\<rparr>) \<noteq> PID (mkInfo 3 2 ''gamma'' 7 0)
   \<and> PPID (mkInfo 3 2 ''gamma'' 7 0) \<noteq> PID ((mkInfo 1 0 ''alpha'' 10 0)\<lparr>ParentCPU := 10\<rparr>)"
proof -
  have d: "\<forall>k\<in>set [3, 2, 1]. rank3 k < 3" by (simp add: rank3_def)
  from no_direct_parent_returned [OF chain3_ranked d chain3_cover, of mon0]
  obtain xs where "returned (GetFilteredProcesses 3 [3, 2, 1] [1, 2, 3] [3, 1, 2] mon0 (Inr chain3))
        = Some (Inr xs)" and nd: "\<forall>a\<in>set xs. \<forall>b\<in>set xs. PPID a \<noteq> PID b" by blast
  then have xs: "xs = [(mkInfo 1 0 ''alpha'' 10 0)\<lparr>ParentCPU := 10\<rparr>, mkInfo 3 2 ''gamma'' 7 0]"
    unfolding chain3_result by simp
  have "PPID ((mkInfo 1 0 ''alpha'' 10 0)\<lparr>ParentCPU := 10\<rparr>) \<noteq> PID (mkInfo 3 2 ''gamma'' 7 0)"
    and "PPID (mkInfo 3 2 ''gamma'' 7 0) \<noteq> PID ((mkInfo 1 0 ''alpha'' 10 0)\<lparr>ParentCPU := 10\<rparr>)"
    using nd unfolding xs by simp_all
  moreover have "rank3 3 < 3" "rank3 2 < 3" "rank3 1 < 3" by (simp_all add: rank3_def)
  ultimately show ?thesis using chain3_ranked chain3_cover chain3_result by (intro conjI)
qed

section \<open>Conservation of totals\<close>

lemma relatedEntries_mem:
  "e \<in> set (relatedEntries ps i0 cs) \<Longrightarrow>
     \<exists>c ci. c \<in> set cs \<and> ps c = Some ci \<and> isRelatedToParent ci i0 \<and> e = childEntry ci i0"
  by (induction cs) (auto split: option.splits if_splits)

lemma foldl_plus_word: "foldl (+) (a :: 64 word) xs = a + sum_list xs"
  by (induction xs arbitrary: a) (simp_all add: add.assoc)

lemma worker3_eval:
  "map_option (\<lambda>st. map_option (\<lambda>i. (CPUPercent i, map cCPUPercent (Children i),
                                        MemoryBytes i, map cMemoryBytes (Children i)))
                 (procs st 1))
     (aggregateAll 2 [1, 2, 3] (collect monF worker3)) =
   Some (Some (F64 (5404319552844596 / 2 ^ 53), [d64 (2 / 10), d64 (3 / 10)],
               6291456, [2097152, 3145728]))"
  by code_simp

lemma worker3_sample:
  "map_option (\<lambda>i. (CPUPercent i, MemoryBytes i)) (allProcesses (collect monF worker3) 1) =
     Some (d64 (1 / 10), 1048576)"
  by code_simp

lemma worker3_returned:
  "map_option (map_sum id (map (\<lambda>i. (PID i, CPUPercent i, ParentCPU i,
                                       map (\<lambda>e. (cPID e, cCPUPercent e)) (Children i)))))
     (returned (GetFilteredProcesses 2 [1, 2, 3] [1, 2, 3] [1, 2, 3] monF (Inr worker3))) =
   Some (Inr [(1, F64 (5404319552844596 / 2 ^ 53), d64 (1 / 10),
               [(2, d64 (2 / 10)), (3, d64 (3 / 10))])])"
  by code_simp

lemma d64_sums:
  "d64 (1 / 10) + (d64 (2 / 10) + d64 (3 / 10)) = F64 (5404319552844595 / 2 ^ 53)"
  "(d64 (1 / 10) + d64 (2 / 10)) + d64 (3 / 10) = F64 (5404319552844596 / 2 ^ 53)"
  "val (d64 (1 / 10)) + (val (d64 (2 / 10)) + val (d64 (3 / 10))) = 21617278211378381 / 2 ^ 55"
  by code_simp+

lemma worker3_ranked: "ranked rank1 worker3"
  by (simp add: ranked_def worker3_def mkProcF_def readable_def rank1_def)

lemma worker3_cover: "Pid ` set worker3 \<subseteq> set [1, 2, 3]"
  by (simp add: worker3_def mkProcF_def)

text \<open>
  Claim C1, as worded, asks that the aggregated CPU of a node equals its original CPU plus
  the sum of the CPU values of its related-child entries exactly, without rounding loss.
  \<open>totalCPU\<close> is a \<open>float64\<close> accumulated entry by entry, starting from the original
  value.  For \<open>worker3\<close> the call returns the parent with the total
  \<open>(0.1 + 0.2) + 0.3 = 0.6000000000000001\<close> (\<open>5404319552844596 / 2 ^ 53\<close>), whereas the
  original value plus the sum of the two entries is \<open>0.1 + (0.2 + 0.3) = 0.6\<close>
  (\<open>5404319552844595 / 2 ^ 53\<close>), and the exact sum of the three doubles is a third number.
\<close>

theorem conservation_counterexample:
  "map_option (map_sum id (map (\<lambda>i. (PID i, CPUPercent i, ParentCPU i,
                                       map (\<lambda>e. (cPID e, cCPUPercent e)) (Children i)))))
     (returned (GetFilteredProcesses 2 [1, 2, 3] [1, 2, 3] [1, 2, 3] monF (Inr worker3))) =
   Some (Inr [(1, F64 (5404319552844596 / 2 ^ 53), d64 (1 / 10),
               [(2, d64 (2 / 10)), (3, d64 (3 / 10))])])
   \<and> d64 (1 / 10) + (d64 (2 / 10) + d64 (3 / 10)) = F64 (5404319552844595 / 2 ^ 53)
   \<and> val (d64 (1 / 10)) + (val (d64 (2 / 10)) + val (d64 (3 / 10))) = 21617278211378381 / 2 ^ 55
   \<and> F64 (5404319552844596 / 2 ^ 53) \<noteq> F64 (5404319552844595 / 2 ^ 53)
   \<and> (5404319552844596 / 2 ^ 53 :: rat) \<noteq> 21617278211378381 / 2 ^ 55"
  using worker3_returned d64_sums(1,3) by simp

text \<open>
  Claim C1 (amended): for a snapshot with acyclic parent links the second pass returns, and
  every process \<open>k\<close> with sample \<open>i0\<close> then holds a record whose \<open>CPUPercent\<close> is the
  left-to-right sum, in the addition of the CPU type, of the original \<open>CPUPercent\<close> and the
  \<open>cCPUPercent\<close> of its \<open>Children\<close> entries in order, and whose \<open>MemoryBytes\<close> is the
  original \<open>MemoryBytes\<close> plus the sum of the entries' \<open>cMemoryBytes\<close> in 64-bit unsigned
  arithmetic.  With an entry in \<open>childrenMap\<close> the \<open>Children\<close> are the entries of the related
  children and \<open>ParentCPU\<close>, \<open>ParentMemory\<close> hold the original values.  Every entry
  carries the totals that the child's own record holds after the pass, so the equation
  holds at every depth.
\<close>

theorem conservation_of_totals:
  fixes m :: "('c::{zero,plus}) Monitor"
  assumes acyclic: "ranked h ps" and deep: "\<forall>k\<in>set ord2. h k < depth"
    and cover2: "Pid ` set ps \<subseteq> set ord2"
  shows "\<exists>st. aggregateAll depth ord2 (collect m ps) = Some st \<and>
     (\<forall>k i0. allProcesses (collect m ps) k = Some i0 \<longrightarrow>
        (\<exists>info. procs st k = Some info \<and>
           CPUPercent info = foldl (+) (CPUPercent i0) (map cCPUPercent (Children info)) \<and>
           MemoryBytes info = MemoryBytes i0 + sum_list (map cMemoryBytes (Children info)) \<and>
           (\<forall>cs. childrenMap (collect m ps) k = Some cs \<longrightarrow>
              Children info = relatedEntries (procs st) i0 cs \<and>
              ParentCPU info = CPUPercent i0 \<and> ParentMemory info = MemoryBytes i0) \<and>
           (\<forall>e\<in>set (Children info). \<exists>cs ci.
              childrenMap (collect m ps) k = Some cs \<and> cPID e \<in> set cs \<and>
              procs st (cPID e) = Some ci \<and> isRelatedToParent ci i0 \<and>
              cCPUPercent e = CPUPercent ci \<and> cMemoryBytes e = MemoryBytes ci)))"
proof -
  from aggregateAll_total [OF acyclic deep] obtain st where
    st: "aggregateAll depth ord2 (collect m ps) = Some st" by blast
  let ?cm = "childrenMap (collect m ps)"
  have "\<exists>info. procs st k = Some info \<and>
           CPUPercent info = foldl (+) (CPUPercent i0) (map cCPUPercent (Children info)) \<and>
           MemoryBytes info = MemoryBytes i0 + sum_list (map cMemoryBytes (Children info)) \<and>
           (\<forall>cs. ?cm k = Some cs \<longrightarrow>
              Children info = relatedEntries (procs st) i0 cs \<and>
              ParentCPU info = CPUPercent i0 \<and> ParentMemory info = MemoryBytes i0) \<and>
           (\<forall>e\<in>set (Children info). \<exists>cs ci.
              ?cm k = Some cs \<and> cPID e \<in> set cs \<and>
              procs st (cPID e) = Some ci \<and> isRelatedToParent ci i0 \<and>
              cCPUPercent e = CPUPercent ci \<and> cMemoryBytes e = MemoryBytes ci)"
    if k: "allProcesses (collect m ps) k = Some i0" for k i0
  proof -
    have p: "procs st k = Some (aggregatedInfo ?cm (procs st) k i0)"
      using st cover2 k by (rule aggregateAll_complete(1))
    have c0: "Children i0 = []" using k by (rule collect_fresh(2))
    show ?thesis
    proof (cases "?cm k")
      case None
      then have "aggregatedInfo ?cm (procs st) k i0 = i0\<lparr>MemoryMB := toMB (MemoryBytes i0)\<rparr>"
        by (simp add: aggregatedInfo_def)
      then show ?thesis using p c0 None by simp
    next
      case (Some cs)
      let ?es = "relatedEntries (procs st) i0 cs"
      let ?info = "withTotals i0 ?es"
      have a: "aggregatedInfo ?cm (procs st) k i0 = ?info"
        using Some by (simp add: aggregatedInfo_def)
      have ch: "Children ?info = ?es" using c0 by (simp add: withTotals_def)
      have cpu: "CPUPercent ?info = foldl (+) (CPUPercent i0) (map cCPUPercent ?es)"
        by (simp add: withTotals_def)
      have mem: "MemoryBytes ?info = MemoryBytes i0 + sum_list (map cMemoryBytes ?es)"
        by (simp add: withTotals_def foldl_plus_word)
      have par: "ParentCPU ?info = CPUPercent i0" "ParentMemory ?info = MemoryBytes i0"
        by (simp_all add: withTotals_def)
      have ent: "\<exists>ci. cPID e \<in> set cs \<and> procs st (cPID e) = Some ci \<and>
                   isRelatedToParent ci i0 \<and>
                   cCPUPercent e = CPUPercent ci \<and> cMemoryBytes e = MemoryBytes ci"
        if "e \<in> set ?es" for e
      proof -
        from relatedEntries_mem [OF that] obtain c ci where
          c: "c \<in> set cs" "procs st c = Some ci" "isRelatedToParent ci i0"
             "e = childEntry ci i0" by blast
        from st c(2) have "PID ci = c" by (rule final_PID)
        then show ?thesis using c by (simp add: childEntry_def)
      qed
      show ?thesis
        using p Some ent unfolding a
        by (intro exI [of _ ?info]) (simp add: ch cpu mem par)
    qed
  qed
  then show ?thesis using st by blast
qed

theorem conservation_of_totals_witness:
  "ranked rank1 worker3 \<and> rank1 1 < 2 \<and> rank1 2 < 2 \<and> rank1 3 < 2
   \<and> Pid ` set worker3 \<subseteq> set [1, 2, 3]
   \<and> (\<exists>st info. aggregateAll 2 [1, 2, 3] (collect monF worker3) = Some st \<and>
         procs st 1 = Some info \<and>
         map cPID (Children info) = [2, 3] \<and>
         CPUPercent info = foldl (+) (d64 (1 / 10)) (map cCPUPercent (Children info)) \<and>
         CPUPercent info = (d64 (1 / 10) + d64 (2 / 10)) + d64 (3 / 10) \<and>
         MemoryBytes info = 1048576 + sum_list (map cMemoryBytes (Children info)) \<and>
         MemoryBytes info = 6291456)"
proof -
  have d: "\<forall>k\<in>set [1, 2, 3]. rank1 k < 2" by (simp add: rank1_def)
  from conservation_of_totals [OF worker3_ranked d worker3_cover, of monF]
  obtain st where st: "aggregateAll 2 [1, 2, 3] (collect monF worker3) = Some st"
    and all: "\<And>k i0. allProcesses (collect monF worker3) k = Some i0 \<Longrightarrow>
        (\<exists>info. procs st k = Some info \<and>
           CPUPercent info = foldl (+) (CPUPercent i0) (map cCPUPercent (Children info)) \<and>
           MemoryBytes info = MemoryBytes i0 + sum_list (map cMemoryBytes (Children info)))"
    by blast
  from worker3_sample obtain i0 where
    i0: "allProcesses (collect monF worker3) 1 = Some i0"
        "CPUPercent i0 = d64 (1 / 10)" "MemoryBytes i0 = 1048576" by auto
  from all [OF i0(1)] obtain info where
    info: "procs st 1 = Some info"
      "CPUPercent info = foldl (+) (d64 (1 / 10)) (map cCPUPercent (Children info))"
      "MemoryBytes info = 1048576 + sum_list (map cMemoryBytes (Children info))"
    unfolding i0(2,3) by blast
  have ev: "CPUPercent info = F64 (5404319552844596 / 2 ^ 53)" "MemoryBytes info = 6291456"
    using worker3_eval unfolding st by (simp_all add: info(1))
  have ids: "map_option (\<lambda>st. map_option (\<lambda>i. map cPID (Children i)) (procs st 1))
               (aggregateAll 2 [1, 2, 3] (collect monF worker3)) = Some (Some [2, 3])"
    by code_simp
  then have ch: "map cPID (Children info) = [2, 3]" unfolding st by (simp add: info(1))
  have body: "aggregateAll 2 [1, 2, 3] (collect monF worker3) = Some st \<and>
         procs st 1 = Some info \<and>
         map cPID (Children info) = [2, 3] \<and>
         CPUPercent info = foldl (+) (d64 (1 / 10)) (map cCPUPercent (Children info)) \<and>
         CPUPercent info = (d64 (1 / 10) + d64 (2 / 10)) + d64 (3 / 10) \<and>
         MemoryBytes info = 1048576 + sum_list (map cMemoryBytes (Children info)) \<and>
         MemoryBytes info = 6291456"
    using st info ch ev unfolding d64_sums(2) by (intro conjI)
  have ex: "\<exists>st info. aggregateAll 2 [1, 2, 3] (collect monF worker3) = Some st \<and>
         procs st 1 = Some info \<and>
         map cPID (Children info) = [2, 3] \<and>
         CPUPercent info = foldl (+) (d64 (1 / 10)) (map cCPUPercent (Children info)) \<and>
         CPUPercent info = (d64 (1 / 10) + d64 (2 / 10)) + d64 (3 / 10) \<and>
         MemoryBytes info = 1048576 + sum_list (map cMemoryBytes (Children info)) \<and>
         MemoryBytes info = 6291456"
    by (rule exI [of _ st], rule exI [of _ info]) (rule body)
  have "rank1 1 < 2" "rank1 2 < 2" "rank1 3 < 2" by (simp_all add: rank1_def)
  then show ?thesis using worker3_ranked worker3_cover ex by (intro conjI)
qed

section \<open>System roots\<close>

lemma relatedEntries_system:
  "Name i0 \<in> set systemParents \<Longrightarrow> relatedEntries ps i0 cs = []"
  by (induction cs) (simp_all add: isRelatedToParent_def split: option.splits)

lemma initfam_result:
  "returned (GetFilteredProcesses 2 [1, 2, 3] [1, 2, 3] [1, 2, 3] mon0 (Inr initfam)) =
     Some (Inr [mkInfo 2 1 ''init'' 10 0, mkInfo 3 1 ''init'' 8 0])"
  by code_simp

lemma initfam_sample:
  "allProcesses (collect mon0 initfam) 1 = Some (mkInfo 1 0 ''init'' 1 0)"
  by code_simp

lemma initfam_ranked: "ranked rank1 initfam"
  by (simp add: ranked_def initfam_def mkProc_def readable_def rank1_def)

lemma initfam_cover: "Pid ` set initfam \<subseteq> set [1, 2, 3]"
  by (simp add: initfam_def mkProc_def)

text \<open>
  Claim C4: whatever the child's name, \<open>isRelatedToParent\<close> is false for a parent named
  \<open>systemd\<close>, \<open>init\<close> or \<open>launchd\<close>.  Hence, on a snapshot with acyclic parent links, the
  call returns, and a process with such a name ends the second pass with no \<open>Children\<close>
  entry and with its own \<open>CPUPercent\<close> and \<open>MemoryBytes\<close>; it is among the returned rows
  only if its own sample reaches a threshold.  In the witness an \<open>init\<close> process has two
  busy children also named \<open>init\<close>: they are returned on their own and the parent is not.
\<close>

theorem system_root_exclusion:
  fixes m :: "('c::{zero,plus,ord}) Monitor"
  assumes acyclic: "ranked h ps" and deep: "\<forall>k\<in>set ord2. h k < depth"
    and cover2: "Pid ` set ps \<subseteq> set ord2" and cover3: "Pid ` set ps \<subseteq> set ord3"
  shows "(\<forall>child parent :: 'c ProcessInfo.
            Name parent \<in> {''systemd'', ''init'', ''launchd''} \<longrightarrow>
              \<not> isRelatedToParent child parent) \<and>
         (\<exists>st xs. aggregateAll depth ord2 (collect m ps) = Some st \<and>
            returned (GetFilteredProcesses depth ord2 ord3 ord4 m (Inr ps)) = Some (Inr xs) \<and>
            (\<forall>k i0. allProcesses (collect m ps) k = Some i0 \<and>
                     Name i0 \<in> {''systemd'', ''init'', ''launchd''} \<longrightarrow>
               (\<exists>info. procs st k = Some info \<and> Children info = [] \<and>
                  CPUPercent info = CPUPercent i0 \<and> MemoryBytes info = MemoryBytes i0 \<and>
                  (info \<in> set xs \<longrightarrow> qualifies (config m) i0))))"
proof -
  have sp: "set systemParents = {''systemd'', ''init'', ''launchd''}"
    by (simp add: systemParents_def)
  have A: "\<forall>child parent :: 'c ProcessInfo.
            Name parent \<in> {''systemd'', ''init'', ''launchd''} \<longrightarrow>
              \<not> isRelatedToParent child parent"
    unfolding sp [symmetric] by (simp add: isRelatedToParent_def)
  from aggregateAll_total [OF acyclic deep] obtain st where
    st: "aggregateAll depth ord2 (collect m ps) = Some st" by blast
  let ?cm = "childrenMap (collect m ps)"
  let ?q = "qualifyingProcesses (config m) ord3 st"
  let ?xs = "sort_Slice (\<lambda>a b. CPUPercent a > CPUPercent b) (topLevel ord4 ?q)"
  have r: "returned (GetFilteredProcesses depth ord2 ord3 ord4 m (Inr ps)) = Some (Inr ?xs)"
    using st by (rule returned_total)
  have qk: "?q k = Some i \<Longrightarrow> qualifies (config m) i" for k i
    unfolding qualifyingProcesses_eq [OF st cover3]
    by (cases "procs st k") (simp_all split: if_splits)
  have xq: "i \<in> set ?xs \<Longrightarrow> qualifies (config m) i" for i
  proof -
    assume "i \<in> set ?xs"
    then have "i \<in> set (topLevel ord4 ?q)" unfolding set_sort_Slice .
    then have "i \<in> set (fourthPass ?q (range_keys ord4 ?q) [])" unfolding topLevel_def .
    then have "\<exists>k. ?q k = Some i" unfolding set_fourthPass by auto
    then show ?thesis using qk by blast
  qed
  have B: "\<exists>info. procs st k = Some info \<and> Children info = [] \<and>
                  CPUPercent info = CPUPercent i0 \<and> MemoryBytes info = MemoryBytes i0 \<and>
                  (info \<in> set ?xs \<longrightarrow> qualifies (config m) i0)"
    if k: "allProcesses (collect m ps) k = Some i0"
      and n: "Name i0 \<in> {''systemd'', ''init'', ''launchd''}" for k i0
  proof -
    have p: "procs st k = Some (aggregatedInfo ?cm (procs st) k i0)"
      using st cover2 k by (rule aggregateAll_complete(1))
    have c0: "Children i0 = []" using k by (rule collect_fresh(2))
    have n': "Name i0 \<in> set systemParents" using n unfolding sp .
    let ?info = "aggregatedInfo ?cm (procs st) k i0"
    have f: "Children ?info = [] \<and> CPUPercent ?info = CPUPercent i0 \<and>
             MemoryBytes ?info = MemoryBytes i0"
      using c0 relatedEntries_system [OF n']
      by (cases "?cm k") (simp_all add: aggregatedInfo_def withTotals_def)
    then have "qualifies (config m) ?info = qualifies (config m) i0"
      by (simp add: qualifies_def)
    then have "?info \<in> set ?xs \<longrightarrow> qualifies (config m) i0" using xq by blast
    then show ?thesis using p f by blast
  qed
  show ?thesis using A st r B by blast
qed

theorem system_root_exclusion_witness:
  "ranked rank1 initfam \<and> rank1 1 < 2 \<and> rank1 2 < 2 \<and> rank1 3 < 2
   \<and> Pid ` set initfam \<subseteq> set [1, 2, 3]
   \<and> \<not> isRelatedToParent (mkInfo 2 1 ''init'' 10 0) (mkInfo 1 0 ''init'' 1 0)
   \<and> (\<exists>st info. aggregateAll 2 [1, 2, 3] (collect mon0 initfam) = Some st \<and>
         procs st 1 = Some info \<and> Children info = [] \<and> CPUPercent info = 1 \<and>
         MemoryBytes info = 0 \<and> info \<notin> set [mkInfo 2 1 ''init'' 10 0, mkInfo 3 1 ''init'' 8 0])
   \<and> returned (GetFilteredProcesses 2 [1, 2, 3] [1, 2, 3] [1, 2, 3] mon0 (Inr initfam)) =
       Some (Inr [mkInfo 2 1 ''init'' 10 0, mkInfo 3 1 ''init'' 8 0])"
proof -
  have d: "\<forall>k\<in>set [1, 2, 3]. rank1 k < 2" by (simp add: rank1_def)
  note T = system_root_exclusion [OF initfam_ranked d initfam_cover initfam_cover,
      of mon0 "[1, 2, 3]"]
  from T have nr: "\<not> isRelatedToParent (mkInfo 2 1 ''init'' 10 0) (mkInfo 1 0 ''init'' 1 0)"
    by (simp add: mkInfo_def)
  from T obtain st where st: "aggregateAll 2 [1, 2, 3] (collect mon0 initfam) = Some st"
    and all: "\<And>k i0. allProcesses (collect mon0 initfam) k = Some i0 \<Longrightarrow>
                 Name i0 \<in> {''systemd'', ''init'', ''launchd''} \<Longrightarrow>
               (\<exists>info. procs st k = Some info \<and> Children info = [] \<and>
                  CPUPercent info = CPUPercent i0 \<and> MemoryBytes info = MemoryBytes i0)"
    by blast
  have "Name (mkInfo 1 0 ''init'' 1 0) \<in> {''systemd'', ''init'', ''launchd''}"
    by (simp add: mkInfo_def)
  from all [OF initfam_sample this] obtain info where
    info: "procs st 1 = Some info" "Children info = []" "CPUPercent info = 1"
      "MemoryBytes info = 0"
    by (auto simp: mkInfo_def)
  have "info \<notin> set [mkInfo 2 1 ''init'' 10 0, mkInfo 3 1 ''init'' 8 0]"
    using info(3) by (auto simp: mkInfo_def)
  then have body: "aggregateAll 2 [1, 2, 3] (collect mon0 initfam) = Some st \<and>
         procs st 1 = Some info \<and> Children info = [] \<and> CPUPercent info = 1 \<and>
         MemoryBytes info = 0 \<and> info \<notin> set [mkInfo 2 1 ''init'' 10 0, mkInfo 3 1 ''init'' 8 0]"
    using st info by (intro conjI)
  have ex: "\<exists>st info. aggregateAll 2 [1, 2, 3] (collect mon0 initfam) = Some st \<and>
         procs st 1 = Some info \<and> Children info = [] \<and> CPUPercent info = 1 \<and>
         MemoryBytes info = 0 \<and> info \<notin> set [mkInfo 2 1 ''init'' 10 0, mkInfo 3 1 ''init'' 8 0]"
    by (rule exI [of _ st], rule exI [of _ info]) (rule body)
  have "rank1 1 < 2" "rank1 2 < 2" "rank1 3 < 2" by (simp_all add: rank1_def)
  then show ?thesis using initfam_ranked initfam_cover nr ex initfam_result by (intro conjI)
qed

section \<open>Errors\<close>









end
